theory Spec2Isabelle
  imports Main "HOL-Library.Word" "HOL-Library.Stream"
begin

unbundle bit_operations_syntax

section \<open>Strings and bytes\<close>

text \<open>
  A JavaScript string is a sequence of UTF-16 code units; \<open>slice\<close>, \<open>trim\<close> and the
  regular expressions of \<^verbatim>\<open>server.js\<close> (none has the \<open>u\<close> flag) all work on code units.
  A \<open>Buffer\<close> is a sequence of bytes.
\<close>

type_synonym jschar = "16 word"
type_synonym jsstring = "jschar list"
type_synonym byte = "8 word"

definition js :: "string \<Rightarrow> jsstring" where
  \<comment> \<open>an ASCII literal of the source as code units\<close>
  "js s = map (\<lambda>c. of_nat (of_char c)) s"

definition is_js_space :: "jschar \<Rightarrow> bool" where
  \<comment> \<open>ECMAScript WhiteSpace and LineTerminator: what \<open>\s\<close> matches and \<open>trim\<close> removes\<close>
  "is_js_space c = (c \<in> {0x09, 0x0A, 0x0B, 0x0C, 0x0D, 0x20, 0xA0, 0x1680,
      0x2000, 0x2001, 0x2002, 0x2003, 0x2004, 0x2005, 0x2006, 0x2007, 0x2008, 0x2009, 0x200A,
      0x2028, 0x2029, 0x202F, 0x205F, 0x3000, 0xFEFF})"

definition trim :: "jsstring \<Rightarrow> jsstring" where
  \<comment> \<open>\<open>String.prototype.trim\<close>\<close>
  "trim s = rev (dropWhile is_js_space (rev (dropWhile is_js_space s)))"

section \<open>License key generator\<close>

text \<open>
  \<^verbatim>\<open>
  function generateLicenseKey() {
    const seg = () => crypto.randomBytes(3).toString('hex').toUpperCase();
    return `TLDR-${seg()}-${seg()}-${seg()}`;
  }
  \<close>
  The random source is the stream of bytes that \<open>crypto.randomBytes\<close> will deliver;
  each call takes its bytes from the front and leaves the rest.
\<close>

type_synonym entropy = "byte stream"

definition randomBytes :: "nat \<Rightarrow> entropy \<Rightarrow> byte list \<times> entropy" where
  "randomBytes n e = (stake n e, sdrop n e)"

definition hex_digit :: "nat \<Rightarrow> jschar" where
  \<comment> \<open>the lowercase digit of a nibble, as \<open>toString('hex')\<close> writes it\<close>
  "hex_digit d = (if d < 10 then of_nat (48 + d) else of_nat (87 + d))"

definition hex_byte :: "byte \<Rightarrow> jsstring" where
  "hex_byte b = [hex_digit (unat b div 16), hex_digit (unat b mod 16)]"

definition toString_hex :: "byte list \<Rightarrow> jsstring" where
  "toString_hex bs = concat (map hex_byte bs)"

definition toUpperCase :: "jsstring \<Rightarrow> jsstring" where
  \<comment> \<open>\<open>toUpperCase\<close> on ASCII text, which is all the hex encoding produces\<close>
  "toUpperCase s = map (\<lambda>c. if 0x61 \<le> c \<and> c \<le> 0x7A then c - 0x20 else c) s"

definition seg :: "entropy \<Rightarrow> jsstring \<times> entropy" where
  "seg e = (case randomBytes 3 e of (buf, e') \<Rightarrow> (toUpperCase (toString_hex buf), e'))"

definition generateLicenseKey :: "entropy \<Rightarrow> jsstring \<times> entropy" where
  "generateLicenseKey e =
     (case seg e of (s1, e1) \<Rightarrow>
      case seg e1 of (s2, e2) \<Rightarrow>
      case seg e2 of (s3, e3) \<Rightarrow>
        (js ''TLDR-'' @ s1 @ js ''-'' @ s2 @ js ''-'' @ s3, e3))"

fun generate_many :: "nat \<Rightarrow> entropy \<Rightarrow> jsstring list" where
  \<comment> \<open>the keys of \<open>n\<close> successive calls\<close>
  "generate_many 0 e = []"
| "generate_many (Suc n) e = (case generateLicenseKey e of (k, e') \<Rightarrow> k # generate_many n e')"

definition is_upper_hex :: "jschar \<Rightarrow> bool" where
  "is_upper_hex c = ((0x30 \<le> c \<and> c \<le> 0x39) \<or> (0x41 \<le> c \<and> c \<le> 0x46))"

definition is_segment :: "jsstring \<Rightarrow> bool" where
  "is_segment s = (length s = 6 \<and> list_all is_upper_hex s)"

definition key_format :: "jsstring \<Rightarrow> bool" where
  \<comment> \<open>\<open>TLDR-XXXXXX-XXXXXX-XXXXXX\<close>\<close>
  "key_format k =
     (length k = 25 \<and> take 5 k = js ''TLDR-'' \<and>
      is_segment (take 6 (drop 5 k)) \<and> take 1 (drop 11 k) = js ''-'' \<and>
      is_segment (take 6 (drop 12 k)) \<and> take 1 (drop 18 k) = js ''-'' \<and>
      is_segment (take 6 (drop 19 k)))"

section \<open>Record store\<close>

text \<open>
  The tables of \<^verbatim>\<open>supabase-setup.sql\<close>. A row of \<open>licenses\<close> has the columns the code
  writes (\<open>id\<close> is generated by the store and never read); \<open>key\<close> is \<open>UNIQUE NOT NULL\<close>,
  \<open>stripe_session_id\<close> carries no constraint.
  The store client resolves every query to a pair \<open>{ data, error }\<close> and never rejects:
  a failed query is one whose \<open>error\<close> is set, which is how the handlers read it.
\<close>

record license =
  key :: jsstring
  email :: "jsstring option"
  stripe_session_id :: jsstring
  active :: bool
  created_at :: jsstring

record usage_row =
  license_key :: jsstring
  usage_created_at :: jsstring

datatype store_error = Store_unavailable | Not_single_row | Unique_violation

record relay_request =
  \<comment> \<open>the parts of the \<open>fetch\<close> call that vary: bearer token, model, user message\<close>
  authorization :: jsstring
  model :: jsstring
  user_content :: jsstring

datatype exn = TypeError | SyntaxError | FetchError

datatype log_line =
    Log_signature_error jsstring
  | Log_insert_error store_error
  | Log_license_created jsstring "jsstring option"
  | Log_email_sent "jsstring option"
  | Log_email_failed
  | Log_summarise_error exn

datatype io_event =
    Select_license jsstring
  | Insert_license license
  | Insert_usage usage_row
  | Relay_call relay_request
  | Email_send "jsstring option" jsstring

record world =
  licenses :: "license list"
  usage :: "usage_row list"
  entropy :: entropy
  trace :: "io_event list"  \<comment> \<open>every call made to a collaborator, oldest first\<close>
  console :: "log_line list"

definition select_single :: "bool \<Rightarrow> license list \<Rightarrow> jsstring \<Rightarrow> license option \<times> store_error option" where
  \<comment> \<open>\<open>.select('*').eq('key', key).eq('active', true).single()\<close>\<close>
  "select_single down tbl k =
     (if down then (None, Some Store_unavailable)
      else case filter (\<lambda>r. key r = k \<and> active r) tbl of
             [r] \<Rightarrow> (Some r, None)
           | _ \<Rightarrow> (None, Some Not_single_row))"

definition insert_license :: "bool \<Rightarrow> license \<Rightarrow> license list \<Rightarrow> store_error option \<times> license list" where
  \<comment> \<open>\<open>.from('licenses').insert(row)\<close> under the \<open>UNIQUE\<close> constraint on \<open>key\<close>\<close>
  "insert_license down row tbl =
     (if down then (Some Store_unavailable, tbl)
      else if list_ex (\<lambda>r. key r = key row) tbl then (Some Unique_violation, tbl)
      else (None, tbl @ [row]))"

definition insert_usage :: "bool \<Rightarrow> usage_row \<Rightarrow> usage_row list \<Rightarrow> store_error option \<times> usage_row list" where
  "insert_usage down row tbl =
     (if down then (Some Store_unavailable, tbl) else (None, tbl @ [row]))"

section \<open>Environment and responses\<close>

datatype json =
    JNull
  | JBool bool
  | JNumber jsstring  \<comment> \<open>the number as written\<close>
  | JString jsstring
  | JArray "json list"
  | JObject "(jsstring \<times> json) list"

datatype relay_outcome =
    Fetch_rejects
  | Fetch_response bool "json option"
    \<comment> \<open>\<open>response.ok\<close>, and what \<open>response.json()\<close> resolves to (\<open>None\<close>: it rejects)\<close>

datatype email_outcome = Email_sent | Email_error_result | Email_throws

record env =
  select_fails :: bool
  insert_fails :: bool
  relay :: "relay_request \<Rightarrow> relay_outcome"
  email_delivery :: email_outcome
  now :: jsstring  \<comment> \<open>\<open>new Date().toISOString()\<close>\<close>
  OPENROUTER_API_KEY :: "jsstring option"
  OPENROUTER_MODEL :: "jsstring option"
  double_is_zero :: "jsstring \<Rightarrow> bool"
    \<comment> \<open>whether a number, as written, is \<open>0\<close> once read as a double (so falsy)\<close>

datatype body =
    Error_body json  \<comment> \<open>\<open>{ error: ... }\<close>\<close>
  | Result_body json  \<comment> \<open>\<open>{ result: ... }\<close>\<close>
  | Valid_body bool  \<comment> \<open>\<open>{ valid: ... }\<close>\<close>
  | Received_body  \<comment> \<open>\<open>{ received: true }\<close>\<close>
  | Text_body jsstring

datatype response = Response nat body

definition falsy :: "jsstring option \<Rightarrow> bool" where
  \<comment> \<open>\<open>!x\<close> for a value that is a string or \<open>undefined\<close>\<close>
  "falsy x = (case x of None \<Rightarrow> True | Some s \<Rightarrow> s = [])"

section \<open>License verifier\<close>

text \<open>
  \<^verbatim>\<open>
  async function verifyLicense(key) {
    const { data, error } = await supabase.from('licenses').select('*')
      .eq('key', key).eq('active', true).single();
    if (error || !data) return null;
    return data;
  }
  \<close>
  \<open>single()\<close> gives an error unless exactly one row matches. The three copies of the server
  have the same \<open>verifyLicense\<close> and the same \<open>/verify\<close> handler; one copy wraps the
  handler in a \<open>try\<close> whose \<open>catch\<close> answers 500 \<open>{ valid: false }\<close>, which nothing in the
  body reaches, since the store client does not throw.
\<close>

definition verifyLicense :: "env \<Rightarrow> jsstring \<Rightarrow> world \<Rightarrow> license option \<times> world" where
  "verifyLicense ev k w =
     (case select_single (select_fails ev) (licenses w) k of (data, error) \<Rightarrow>
        (if error \<noteq> None \<or> data = None then None else data,
         w\<lparr>trace := trace w @ [Select_license k]\<rparr>))"

definition verify :: "env \<Rightarrow> jsstring option \<Rightarrow> world \<Rightarrow> response \<times> world" where
  \<comment> \<open>\<open>GET /verify\<close>; the argument is \<open>req.query.key\<close>\<close>
  "verify ev k w =
     (if falsy k then (Response 400 (Valid_body False), w)
      else case verifyLicense ev (the k) w of (license, w') \<Rightarrow>
             (Response 200 (Valid_body (license \<noteq> None)), w'))"

section \<open>JSON.parse\<close>

text \<open>
  \<open>JSON.parse\<close> is a built-in of the language. It is modelled by the JSON grammar of
  ECMA-262 (24.5.1): a lexer for the tokens, with JSON white space between them, and a
  reader of the token sequence. A text that is not in the grammar makes \<open>JSON.parse\<close>
  throw a \<open>SyntaxError\<close>; the model returns \<open>None\<close>. Numbers are kept as written.
\<close>

datatype token =
    LBrace | RBrace | LBrack | RBrack | Colon | Comma
  | TString jsstring | TNumber jsstring | TTrue | TFalse | TNull

definition is_json_space :: "jschar \<Rightarrow> bool" where
  "is_json_space c = (c \<in> {0x09, 0x0A, 0x0D, 0x20})"

definition is_digit :: "jschar \<Rightarrow> bool" where
  "is_digit c = (c \<in> {0x30, 0x31, 0x32, 0x33, 0x34, 0x35, 0x36, 0x37, 0x38, 0x39})"

definition is_hex :: "jschar \<Rightarrow> bool" where
  "is_hex c = (is_digit c \<or> c \<in> {0x41, 0x42, 0x43, 0x44, 0x45, 0x46, 0x61, 0x62, 0x63, 0x64, 0x65, 0x66})"

definition hex_value :: "jschar \<Rightarrow> nat" where
  "hex_value c = (if is_digit c then unat c - 48 else if c < 0x61 then unat c - 55 else unat c - 87)"

definition unicode_escape :: "jsstring \<Rightarrow> jschar" where
  \<comment> \<open>the code unit written \<open>\uXXXX\<close>\<close>
  "unicode_escape ds = of_nat (foldl (\<lambda>a d. 16 * a + hex_value d) 0 ds)"

definition simple_escape :: "jschar \<Rightarrow> jschar option" where
  "simple_escape e =
     (if e = 0x22 then Some 0x22 else if e = 0x5C then Some 0x5C else if e = 0x2F then Some 0x2F
      else if e = 0x62 then Some 0x08 else if e = 0x66 then Some 0x0C else if e = 0x6E then Some 0x0A
      else if e = 0x72 then Some 0x0D else if e = 0x74 then Some 0x09 else None)"

definition with_char :: "jschar \<Rightarrow> (jsstring \<times> jsstring) option \<Rightarrow> (jsstring \<times> jsstring) option" where
  "with_char c r = (case r of None \<Rightarrow> None | Some (s, rest) \<Rightarrow> Some (c # s, rest))"

fun lex_string :: "jsstring \<Rightarrow> (jsstring \<times> jsstring) option" where
  \<comment> \<open>the text after an opening quote: the string's value and what follows the closing quote\<close>
  "lex_string [] = None"
| "lex_string (c # cs) =
     (if c = 0x22 then Some ([], cs)
      else if c = 0x5C then
        (case cs of
           [] \<Rightarrow> None
         | e # cs' \<Rightarrow>
             if e = 0x75 then
               (if 4 \<le> length cs' \<and> list_all is_hex (take 4 cs')
                then with_char (unicode_escape (take 4 cs')) (lex_string (drop 4 cs'))
                else None)
             else (case simple_escape e of
                     None \<Rightarrow> None
                   | Some d \<Rightarrow> with_char d (lex_string cs')))
      else if c < 0x20 then None
      else with_char c (lex_string cs))"

definition lex_int :: "jsstring \<Rightarrow> (jsstring \<times> jsstring) option" where
  "lex_int s =
     (case s of
        [] \<Rightarrow> None
      | c # cs \<Rightarrow>
          if c = 0x30 then Some ([c], cs)
          else if is_digit c then Some (c # takeWhile is_digit cs, dropWhile is_digit cs)
          else None)"

definition lex_digits :: "jsstring \<Rightarrow> (jsstring \<times> jsstring) option" where
  "lex_digits s =
     (if takeWhile is_digit s = [] then None else Some (takeWhile is_digit s, dropWhile is_digit s))"

definition lex_frac :: "jsstring \<Rightarrow> (jsstring \<times> jsstring) option" where
  "lex_frac s =
     (case s of
        [] \<Rightarrow> Some ([], [])
      | c # cs \<Rightarrow> if c = 0x2E then with_char c (lex_digits cs) else Some ([], s))"

definition lex_exp :: "jsstring \<Rightarrow> (jsstring \<times> jsstring) option" where
  "lex_exp s =
     (case s of
        [] \<Rightarrow> Some ([], [])
      | c # cs \<Rightarrow>
          if c = 0x65 \<or> c = 0x45 then
            (case cs of
               [] \<Rightarrow> None
             | g # cs' \<Rightarrow>
                 if g = 0x2B \<or> g = 0x2D then with_char c (with_char g (lex_digits cs'))
                 else with_char c (lex_digits cs))
          else Some ([], s))"

definition lex_unsigned :: "jsstring \<Rightarrow> (jsstring \<times> jsstring) option" where
  "lex_unsigned s =
     (case lex_int s of
        None \<Rightarrow> None
      | Some (i, s2) \<Rightarrow>
          (case lex_frac s2 of
             None \<Rightarrow> None
           | Some (f, s3) \<Rightarrow>
               (case lex_exp s3 of
                  None \<Rightarrow> None
                | Some (x, s4) \<Rightarrow> Some (i @ f @ x, s4))))"

definition lex_number :: "jsstring \<Rightarrow> (jsstring \<times> jsstring) option" where
  "lex_number s =
     (case s of
        [] \<Rightarrow> None
      | c # cs \<Rightarrow> if c = 0x2D then with_char c (lex_unsigned cs) else lex_unsigned s)"

definition punctuation :: "jschar \<Rightarrow> token option" where
  "punctuation c =
     (if c = 0x7B then Some LBrace else if c = 0x7D then Some RBrace
      else if c = 0x5B then Some LBrack else if c = 0x5D then Some RBrack
      else if c = 0x3A then Some Colon else if c = 0x2C then Some Comma else None)"

definition with_token :: "token \<Rightarrow> token list option \<Rightarrow> token list option" where
  "with_token t r = (case r of None \<Rightarrow> None | Some ts \<Rightarrow> Some (t # ts))"

lemma lex_string_length: "lex_string cs = Some (s, rest) \<Longrightarrow> length rest < length cs"
proof (induction cs arbitrary: s rule: lex_string.induct)
  case 1
  then show ?case by simp
next
  case (2 c cs)
  show ?case
  proof (cases "c = 0x22")
    case True
    with "2.prems" show ?thesis by simp
  next
    case nq: False
    show ?thesis
    proof (cases "c = 0x5C")
      case True
      with nq "2.prems" "2.IH"(1,2) show ?thesis
        by (fastforce simp: with_char_def split: list.splits if_splits option.splits)
    next
      case False
      with nq "2.prems" "2.IH"(3) show ?thesis
        by (fastforce simp: with_char_def split: if_splits option.splits)
    qed
  qed
qed

lemma lex_digits_length: "lex_digits s = Some (d, rest) \<Longrightarrow> length rest \<le> length s"
  by (auto simp: lex_digits_def length_dropWhile_le split: if_splits)

lemma lex_int_length: "lex_int s = Some (d, rest) \<Longrightarrow> length rest < length s"
  by (auto simp: lex_int_def less_Suc_eq_le length_dropWhile_le split: list.splits if_splits)

lemma lex_frac_length: "lex_frac s = Some (d, rest) \<Longrightarrow> length rest \<le> length s"
  by (auto simp: lex_frac_def with_char_def dest!: lex_digits_length
      split: list.splits if_splits option.splits)

lemma lex_exp_length: "lex_exp s = Some (d, rest) \<Longrightarrow> length rest \<le> length s"
  by (auto simp: lex_exp_def with_char_def dest!: lex_digits_length
      split: list.splits if_splits option.splits)

lemma lex_unsigned_length: "lex_unsigned s = Some (d, rest) \<Longrightarrow> length rest < length s"
  by (auto simp: lex_unsigned_def dest!: lex_int_length lex_frac_length lex_exp_length
      split: option.splits)

lemma lex_number_length: "lex_number s = Some (d, rest) \<Longrightarrow> length rest < length s"
  by (auto simp: lex_number_def with_char_def dest!: lex_unsigned_length
      split: list.splits if_splits option.splits)

function tokenise :: "jsstring \<Rightarrow> token list option" where
  "tokenise [] = Some []"
| "tokenise (c # cs) =
     (if is_json_space c then tokenise cs
      else if punctuation c \<noteq> None then with_token (the (punctuation c)) (tokenise cs)
      else if c = 0x22 then
        (case lex_string cs of
           None \<Rightarrow> None
         | Some (s, rest) \<Rightarrow> with_token (TString s) (tokenise rest))
      else if c = 0x2D \<or> is_digit c then
        (case lex_number (c # cs) of
           None \<Rightarrow> None
         | Some (n, rest) \<Rightarrow> with_token (TNumber n) (tokenise rest))
      else if take 4 (c # cs) = js ''true'' then with_token TTrue (tokenise (drop 3 cs))
      else if take 5 (c # cs) = js ''false'' then with_token TFalse (tokenise (drop 4 cs))
      else if take 4 (c # cs) = js ''null'' then with_token TNull (tokenise (drop 3 cs))
      else None)"
  by pat_completeness auto
termination
  by (relation "measure length")
    (auto dest!: lex_string_length lex_number_length simp: less_Suc_eq_le)

datatype frame =
    Array_frame "json list"  \<comment> \<open>an open array and its elements so far\<close>
  | Object_frame "(jsstring \<times> json) list" jsstring
    \<comment> \<open>an open object, its members so far and the key whose value is being read\<close>

datatype reader =
    Need_value "frame list"
  | Array_open "frame list"  \<comment> \<open>just after \<open>[\<close>\<close>
  | Object_open "frame list"  \<comment> \<open>just after \<open>{\<close>\<close>
  | Need_key "(jsstring \<times> json) list" "frame list"  \<comment> \<open>after a comma in an object\<close>
  | Need_colon "(jsstring \<times> json) list" jsstring "frame list"
  | In_array "json list" "frame list"  \<comment> \<open>after an element\<close>
  | In_object "(jsstring \<times> json) list" "frame list"  \<comment> \<open>after a member\<close>
  | Complete json

fun deliver :: "json \<Rightarrow> frame list \<Rightarrow> reader" where
  \<comment> \<open>a value has been read inside the open containers \<open>st\<close>\<close>
  "deliver v [] = Complete v"
| "deliver v (Array_frame es # st) = In_array (es @ [v]) st"
| "deliver v (Object_frame ms k # st) = In_object (ms @ [(k, v)]) st"

fun start_value :: "token \<Rightarrow> frame list \<Rightarrow> reader option" where
  "start_value LBrack st = Some (Array_open st)"
| "start_value LBrace st = Some (Object_open st)"
| "start_value (TString s) st = Some (deliver (JString s) st)"
| "start_value (TNumber n) st = Some (deliver (JNumber n) st)"
| "start_value TTrue st = Some (deliver (JBool True) st)"
| "start_value TFalse st = Some (deliver (JBool False) st)"
| "start_value TNull st = Some (deliver JNull st)"
| "start_value RBrace st = None"
| "start_value RBrack st = None"
| "start_value Colon st = None"
| "start_value Comma st = None"

fun read_token :: "reader \<Rightarrow> token \<Rightarrow> reader option" where
  "read_token (Need_value st) t = start_value t st"
| "read_token (Array_open st) t =
     (if t = RBrack then Some (deliver (JArray []) st) else start_value t (Array_frame [] # st))"
| "read_token (Object_open st) t =
     (case t of
        RBrace \<Rightarrow> Some (deliver (JObject []) st)
      | TString k \<Rightarrow> Some (Need_colon [] k st)
      | _ \<Rightarrow> None)"
| "read_token (Need_key ms st) t = (case t of TString k \<Rightarrow> Some (Need_colon ms k st) | _ \<Rightarrow> None)"
| "read_token (Need_colon ms k st) t =
     (if t = Colon then Some (Need_value (Object_frame ms k # st)) else None)"
| "read_token (In_array es st) t =
     (if t = Comma then Some (Need_value (Array_frame es # st))
      else if t = RBrack then Some (deliver (JArray es) st)
      else None)"
| "read_token (In_object ms st) t =
     (if t = Comma then Some (Need_key ms st)
      else if t = RBrace then Some (deliver (JObject ms) st)
      else None)"
| "read_token (Complete v) t = None"

fun read_tokens :: "reader \<Rightarrow> token list \<Rightarrow> reader option" where
  "read_tokens r [] = Some r"
| "read_tokens r (t # ts) = (case read_token r t of None \<Rightarrow> None | Some r' \<Rightarrow> read_tokens r' ts)"

definition JSON_parse :: "jsstring \<Rightarrow> json option" where
  "JSON_parse s =
     (case tokenise s of
        None \<Rightarrow> None
      | Some ts \<Rightarrow>
          (case read_tokens (Need_value []) ts of
             Some (Complete v) \<Rightarrow> Some v
           | _ \<Rightarrow> None))"

section \<open>Summarisation gateway\<close>

text \<open>
  The three \<open>replace\<close> calls that remove a code fence from the relay's text:
  \<^verbatim>\<open>.replace(/^```json\s*/i, '').replace(/^```\s*/i, '').replace(/```\s*$/i, '')\<close>.
  A pattern anchored with \<open>^\<close> can only match at the start; the last pattern is tried at
  each position from the left, and the first match is removed.
\<close>

definition fence :: jsstring where
  "fence = js ''```''"

definition is_json_tag :: "jsstring \<Rightarrow> bool" where
  \<comment> \<open>\<open>json\<close> in any case, as the \<open>i\<close> flag has it\<close>
  "is_json_tag t =
     (case t of
        [a, b, c, d] \<Rightarrow>
          (a = 0x6A \<or> a = 0x4A) \<and> (b = 0x73 \<or> b = 0x53) \<and>
          (c = 0x6F \<or> c = 0x4F) \<and> (d = 0x6E \<or> d = 0x4E)
      | _ \<Rightarrow> False)"

definition strip_json_fence :: "jsstring \<Rightarrow> jsstring" where
  "strip_json_fence s =
     (if take 3 s = fence \<and> is_json_tag (take 4 (drop 3 s))
      then dropWhile is_js_space (drop 7 s) else s)"

definition strip_open_fence :: "jsstring \<Rightarrow> jsstring" where
  "strip_open_fence s = (if take 3 s = fence then dropWhile is_js_space (drop 3 s) else s)"

fun strip_close_fence :: "jsstring \<Rightarrow> jsstring" where
  "strip_close_fence [] = []"
| "strip_close_fence (c # cs) =
     (if take 3 (c # cs) = fence \<and> list_all is_js_space (drop 2 cs) then []
      else c # strip_close_fence cs)"

definition strip_fences :: "jsstring \<Rightarrow> jsstring" where
  \<comment> \<open>from the trimmed content to \<open>raw\<close>\<close>
  "strip_fences s = trim (strip_close_fence (strip_open_fence (strip_json_fence s)))"

text \<open>
  Reading \<open>data.choices[0].message.content\<close> from the relay's answer. A property read on
  \<open>undefined\<close> or \<open>null\<close> throws a \<open>TypeError\<close>; \<open>None\<close> stands for \<open>undefined\<close>.
  \<open>member\<close> is used with the names \<open>choices\<close>, \<open>message\<close>, \<open>content\<close> and \<open>error\<close>, which
  only an object can have.
\<close>

fun member :: "json option \<Rightarrow> jsstring \<Rightarrow> exn + json option" where
  "member None k = Inl TypeError"
| "member (Some JNull) k = Inl TypeError"
| "member (Some (JObject ms)) k = Inr (map_of (rev ms) k)"
| "member (Some v) k = Inr None"

fun index0 :: "json option \<Rightarrow> exn + json option" where
  \<comment> \<open>\<open>v[0]\<close>\<close>
  "index0 None = Inl TypeError"
| "index0 (Some JNull) = Inl TypeError"
| "index0 (Some (JArray es)) = Inr (case es of [] \<Rightarrow> None | e # _ \<Rightarrow> Some e)"
| "index0 (Some (JString s)) = Inr (case s of [] \<Rightarrow> None | c # _ \<Rightarrow> Some (JString [c]))"
| "index0 (Some (JObject ms)) = Inr (map_of (rev ms) (js ''0''))"
| "index0 (Some v) = Inr None"

definition and_then :: "exn + 'a \<Rightarrow> ('a \<Rightarrow> exn + 'b) \<Rightarrow> exn + 'b" where
  "and_then r f = (case r of Inl e \<Rightarrow> Inl e | Inr v \<Rightarrow> f v)"

definition content_of :: "json \<Rightarrow> exn + jsstring" where
  \<comment> \<open>\<open>data.choices[0].message.content.trim()\<close>; only a string has \<open>trim\<close>\<close>
  "content_of data =
     and_then (member (Some data) (js ''choices'')) (\<lambda>choices.
     and_then (index0 choices) (\<lambda>choice.
     and_then (member choice (js ''message'')) (\<lambda>message.
     and_then (member message (js ''content'')) (\<lambda>content.
       case content of Some (JString s) \<Rightarrow> Inr (trim s) | _ \<Rightarrow> Inl TypeError))))"

definition truthy :: "env \<Rightarrow> json option \<Rightarrow> bool" where
  "truthy ev v =
     (case v of
        None \<Rightarrow> False
      | Some JNull \<Rightarrow> False
      | Some (JBool b) \<Rightarrow> b
      | Some (JNumber n) \<Rightarrow> \<not> double_is_zero ev n
      | Some (JString s) \<Rightarrow> s \<noteq> []
      | Some _ \<Rightarrow> True)"

definition upstream_message :: "env \<Rightarrow> json \<Rightarrow> exn + json" where
  \<comment> \<open>\<open>err.error?.message || 'AI API error'\<close>\<close>
  "upstream_message ev err =
     and_then (member (Some err) (js ''error'')) (\<lambda>e.
     and_then (if e = None \<or> e = Some JNull then Inr None else member e (js ''message'')) (\<lambda>m.
       Inr (if truthy ev m then the m else JString (js ''AI API error''))))"

text \<open>
  The request body is taken at the types the interface gives it: \<open>licenseKey\<close>, \<open>text\<close>
  and \<open>title\<close> are strings, or absent.
\<close>

record summarise_request =
  \<comment> \<open>\<open>req.body\<close>; \<open>None\<close> is an absent field\<close>
  licenseKey :: "jsstring option"
  text_field :: "jsstring option"
  title :: "jsstring option"

definition template :: "jsstring option \<Rightarrow> jsstring" where
  \<comment> \<open>a string or \<open>undefined\<close> inside a template literal\<close>
  "template x = (case x of None \<Rightarrow> js ''undefined'' | Some s \<Rightarrow> s)"

definition relay_request_of :: "env \<Rightarrow> jsstring option \<Rightarrow> jsstring \<Rightarrow> relay_request" where
  "relay_request_of ev ttl trimmed =
     \<lparr>authorization = js ''Bearer '' @ template (OPENROUTER_API_KEY ev),
      model = (if falsy (OPENROUTER_MODEL ev) then js ''meta-llama/llama-3.3-70b-instruct:free''
               else the (OPENROUTER_MODEL ev)),
      user_content = js ''Page title: '' @ template ttl @ [0x0A, 0x0A] @ js ''Page content:''
        @ [0x0A] @ trimmed\<rparr>"

definition call_relay :: "env \<Rightarrow> jsstring \<Rightarrow> jsstring option \<Rightarrow> jsstring \<Rightarrow> world \<Rightarrow> (exn + response) \<times> world" where
  \<comment> \<open>the body of the \<open>try\<close> block: \<open>Inl\<close> is an exception that reaches \<open>catch\<close>\<close>
  "call_relay ev k ttl txt w =
     (let trimmed = take 6000 txt;
          request = relay_request_of ev ttl trimmed;
          w1 = w\<lparr>trace := trace w @ [Relay_call request]\<rparr>
      in case relay ev request of
           Fetch_rejects \<Rightarrow> (Inl FetchError, w1)
         | Fetch_response ok answer \<Rightarrow>
             if \<not> ok then
               (case answer of
                  None \<Rightarrow> (Inl SyntaxError, w1)
                | Some err \<Rightarrow>
                    (case upstream_message ev err of
                       Inl e \<Rightarrow> (Inl e, w1)
                     | Inr m \<Rightarrow> (Inr (Response 502 (Error_body m)), w1)))
             else
               (case answer of
                  None \<Rightarrow> (Inl SyntaxError, w1)
                | Some data \<Rightarrow>
                    (case content_of data of
                       Inl e \<Rightarrow> (Inl e, w1)
                     | Inr content \<Rightarrow>
                         (let raw = strip_fences content;
                              row = \<lparr>license_key = k, usage_created_at = now ev\<rparr>;
                              w2 = w1\<lparr>usage := snd (insert_usage (insert_fails ev) row (usage w1)),
                                     trace := trace w1 @ [Insert_usage row]\<rparr>
                          in case JSON_parse raw of
                               None \<Rightarrow> (Inl SyntaxError, w2)
                             | Some v \<Rightarrow> (Inr (Response 200 (Result_body v)), w2)))))"

definition error_body :: "string \<Rightarrow> body" where
  "error_body m = Error_body (JString (js m))"

definition summarise :: "env \<Rightarrow> summarise_request \<Rightarrow> world \<Rightarrow> response \<times> world" where
  \<comment> \<open>\<open>POST /summarise\<close>\<close>
  "summarise ev req w =
     (if falsy (licenseKey req) \<or> falsy (text_field req)
      then (Response 400 (error_body ''Missing licenseKey or text''), w)
      else case verifyLicense ev (the (licenseKey req)) w of (license, w0) \<Rightarrow>
        if license = None then (Response 403 (error_body ''INVALID_LICENSE''), w0)
        else case call_relay ev (the (licenseKey req)) (title req) (the (text_field req)) w0 of
               (Inr response, w') \<Rightarrow> (response, w')
             | (Inl err, w') \<Rightarrow>
                 (Response 500 (error_body ''Internal server error''),
                  w'\<lparr>console := console w' @ [Log_summarise_error err]\<rparr>))"

section \<open>Issuance handler\<close>

text \<open>
  \<open>POST /webhook\<close>. Checking the signature is Stripe's part: \<open>constructEvent\<close> throws or
  returns the event. \<^verbatim>\<open>server.js\<close> logs the new key and stops there; a later copy of the
  file goes on to mail the key, inside a \<open>try\<close> of its own. Both are modelled.
\<close>

record stripe_event =
  \<comment> \<open>\<open>event.type\<close>, \<open>event.data.object.id\<close>, \<open>event.data.object.customer_details?.email\<close>\<close>
  event_type :: jsstring
  session_id :: jsstring
  customer_email :: "jsstring option"

datatype constructed = Signature_error jsstring | Verified stripe_event
  \<comment> \<open>what \<open>stripe.webhooks.constructEvent\<close> does: throw with a message, or return the event\<close>

definition new_license :: "env \<Rightarrow> stripe_event \<Rightarrow> jsstring \<Rightarrow> license" where
  "new_license ev e k =
     \<lparr>key = k, email = customer_email e, stripe_session_id = session_id e, active = True,
      created_at = now ev\<rparr>"

definition webhook :: "env \<Rightarrow> constructed \<Rightarrow> world \<Rightarrow> response \<times> world" where
  \<comment> \<open>\<open>POST /webhook\<close> of \<^verbatim>\<open>server.js\<close>\<close>
  "webhook ev c w =
     (case c of
        Signature_error m \<Rightarrow>
          (Response 400 (Text_body (js ''Webhook Error: '' @ m)),
           w\<lparr>console := console w @ [Log_signature_error m]\<rparr>)
      | Verified e \<Rightarrow>
          if event_type e = js ''checkout.session.completed'' then
            (case generateLicenseKey (entropy w) of (k, en) \<Rightarrow>
             case insert_license (insert_fails ev) (new_license ev e k) (licenses w) of (error, tbl) \<Rightarrow>
               (let w1 = w\<lparr>licenses := tbl, entropy := en,
                            trace := trace w @ [Insert_license (new_license ev e k)]\<rparr>
                in case error of
                     Some x \<Rightarrow>
                       (Response 500 (error_body ''Failed to create license''),
                        w1\<lparr>console := console w1 @ [Log_insert_error x]\<rparr>)
                   | None \<Rightarrow>
                       (Response 200 Received_body,
                        w1\<lparr>console := console w1 @ [Log_license_created k (customer_email e)]\<rparr>)))
          else (Response 200 Received_body, w))"

definition send_email :: "env \<Rightarrow> jsstring option \<Rightarrow> jsstring \<Rightarrow> world \<Rightarrow> world" where
  \<comment> \<open>the \<open>try\<close>/\<open>catch\<close> around \<open>resend.emails.send\<close>: a throw is logged and goes no further\<close>
  "send_email ev to k w =
     (let w1 = w\<lparr>trace := trace w @ [Email_send to k]\<rparr>
      in case email_delivery ev of
           Email_throws \<Rightarrow> w1\<lparr>console := console w1 @ [Log_email_failed]\<rparr>
         | _ \<Rightarrow> w1\<lparr>console := console w1 @ [Log_email_sent to]\<rparr>)"

definition webhook_email :: "env \<Rightarrow> constructed \<Rightarrow> world \<Rightarrow> response \<times> world" where
  \<comment> \<open>\<open>POST /webhook\<close> of the variant that mails the key\<close>
  "webhook_email ev c w =
     (case c of
        Signature_error m \<Rightarrow> (Response 400 (Text_body (js ''Webhook Error: '' @ m)), w)
      | Verified e \<Rightarrow>
          if event_type e = js ''checkout.session.completed'' then
            (case generateLicenseKey (entropy w) of (k, en) \<Rightarrow>
             case insert_license (insert_fails ev) (new_license ev e k) (licenses w) of (error, tbl) \<Rightarrow>
               (let w1 = w\<lparr>licenses := tbl, entropy := en,
                            trace := trace w @ [Insert_license (new_license ev e k)]\<rparr>
                in case error of
                     Some x \<Rightarrow>
                       (Response 500 (error_body ''Failed to create license''),
                        w1\<lparr>console := console w1 @ [Log_insert_error x]\<rparr>)
                   | None \<Rightarrow>
                       (Response 200 Received_body,
                        send_email ev (customer_email e) k
                          (w1\<lparr>console := console w1 @ [Log_license_created k (customer_email e)]\<rparr>))))
          else (Response 200 Received_body, w))"

section \<open>Concrete states and requests\<close>

definition key0 :: jsstring where
  "key0 = js ''TLDR-0A1B2C-3D4E5F-A0B1C2''"

definition license0 :: license where
  "license0 = \<lparr>key = key0, email = Some (js ''a@example.com''), stripe_session_id = js ''cs_test_1'',
     active = True, created_at = js ''2024-01-01T00:00:00.000Z''\<rparr>"

definition answer_with :: "jsstring \<Rightarrow> json" where
  \<comment> \<open>a relay answer whose first choice has the given content\<close>
  "answer_with c =
     JObject [(js ''choices'', JArray [JObject [(js ''message'', JObject [(js ''content'', JString c)])]])]"

definition env0 :: env where
  "env0 = \<lparr>select_fails = False, insert_fails = False,
     relay = (\<lambda>_. Fetch_response True (Some (answer_with (js ''[1, true]'')))),
     email_delivery = Email_sent, now = js ''2024-01-02T00:00:00.000Z'',
     OPENROUTER_API_KEY = Some (js ''sk''), OPENROUTER_MODEL = None,
     double_is_zero = (\<lambda>n. n = js ''0'')\<rparr>"

definition world0 :: world where
  "world0 = \<lparr>licenses = [], usage = [],
     entropy = [0x01, 0x23, 0x45, 0x67, 0x89, 0xAB, 0xCD, 0xEF, 0x10, 0x32, 0x54, 0x76, 0x98, 0xBA,
       0xDC, 0xFE, 0x00, 0xFF] @- sconst 0,
     trace = [], console = []\<rparr>"

definition world1 :: world where
  "world1 = world0\<lparr>licenses := [license0]\<rparr>"

definition world_revoked :: world where
  "world_revoked = world0\<lparr>licenses := [license0\<lparr>active := False\<rparr>]\<rparr>"

definition request0 :: summarise_request where
  "request0 = \<lparr>licenseKey = Some key0, text_field = Some (js ''A page about cats.''), title = None\<rparr>"

definition long_text :: jsstring where
  "long_text = replicate 10000 0x61"

lemmas fixtures = key0_def license0_def env0_def world0_def world1_def world_revoked_def js_def

lemmas json_eval = is_json_space_def punctuation_def with_token_def with_char_def is_digit_def
  lex_number_def lex_unsigned_def lex_int_def lex_frac_def lex_exp_def lex_digits_def JSON_parse_def
  simple_escape_def is_hex_def unicode_escape_def hex_value_def

lemmas fence_eval = strip_fences_def trim_def is_js_space_def strip_json_fence_def
  strip_open_fence_def fence_def is_json_tag_def

lemma answer_content: "content_of (answer_with c) = Inr (trim c)"
  by (simp add: content_of_def answer_with_def and_then_def js_def)

lemma randomBytes_3: "randomBytes 3 (a ## b ## c ## e) = ([a, b, c], e)"
  by (simp add: randomBytes_def numeral_3_eq_3)

lemma seg_bytes: "seg (a ## b ## c ## e) = (toUpperCase (hex_byte a @ hex_byte b @ hex_byte c), e)"
  by (simp add: seg_def randomBytes_3 toString_hex_def)

lemma generateLicenseKey_bytes:
  "generateLicenseKey (a1 ## b1 ## c1 ## a2 ## b2 ## c2 ## a3 ## b3 ## c3 ## e) =
     (js ''TLDR-'' @ toUpperCase (hex_byte a1 @ hex_byte b1 @ hex_byte c1) @ js ''-''
        @ toUpperCase (hex_byte a2 @ hex_byte b2 @ hex_byte c2) @ js ''-''
        @ toUpperCase (hex_byte a3 @ hex_byte b3 @ hex_byte c3), e)"
  by (simp add: generateLicenseKey_def seg_bytes)

lemmas key_eval = generateLicenseKey_bytes toUpperCase_def hex_byte_def hex_digit_def


lemma world0_keys:
  "generateLicenseKey (entropy world0) =
     (js ''TLDR-012345-6789AB-CDEF10'', [0x32, 0x54, 0x76, 0x98, 0xBA, 0xDC, 0xFE, 0x00, 0xFF] @- sconst 0)"
  "generateLicenseKey ([0x32, 0x54, 0x76, 0x98, 0xBA, 0xDC, 0xFE, 0x00, 0xFF] @- sconst 0) =
     (js ''TLDR-325476-98BADC-FE00FF'', sconst 0)"
  by (simp_all add: world0_def key_eval js_def)

section \<open>The verify endpoint and the verifier\<close>

text \<open>
  C10. A \<open>/verify\<close> request whose \<open>key\<close> parameter is absent or empty is answered
  \<open>{ valid: false }\<close> and nothing else happens: the world, and with it the trace of store
  calls, is the one the request found.
\<close>

theorem verify_missing_key:
  "k = None \<or> k = Some [] \<Longrightarrow> verify ev k w = (Response 400 (Valid_body False), w)"
  by (auto simp: verify_def falsy_def)

theorem verify_missing_key_witness:
  "verify env0 None world1 = (Response 400 (Valid_body False), world1) \<and>
   verify env0 (Some []) world1 = (Response 400 (Valid_body False), world1)"
  using verify_missing_key [of None env0 world1] verify_missing_key [of "Some []" env0 world1]
  by simp

lemma verifyLicense_None_iff:
  "fst (verifyLicense ev k w) = None \<longleftrightarrow>
     select_fails ev \<or> length (filter (\<lambda>r. key r = k \<and> active r) (licenses w)) \<noteq> 1"
  by (auto simp: verifyLicense_def select_single_def split: list.splits)

lemma verifyLicense_world: "snd (verifyLicense ev k w) = w\<lparr>trace := trace w @ [Select_license k]\<rparr>"
  by (simp add: verifyLicense_def split: prod.splits)

text \<open>
  C2. \<open>verifyLicense\<close> returns \<open>null\<close> when no row has the key, when the rows that have it
  are inactive, and when the lookup fails; in the three cases \<open>/verify\<close> answers with the
  same value, \<open>{ valid: false }\<close> with status 200.
\<close>

theorem verifyLicense_fails_closed:
  assumes "\<not> list_ex (\<lambda>r. key r = k) (licenses w)
     \<or> (list_ex (\<lambda>r. key r = k) (licenses w) \<and> list_all (\<lambda>r. key r = k \<longrightarrow> \<not> active r) (licenses w))
     \<or> select_fails ev"
  shows "fst (verifyLicense ev k w) = None \<and>
     (k \<noteq> [] \<longrightarrow> fst (verify ev (Some k) w) = Response 200 (Valid_body False))"
proof -
  have "select_fails ev \<or> filter (\<lambda>r. key r = k \<and> active r) (licenses w) = []"
    using assms by (auto simp: filter_empty_conv list_ex_iff list_all_iff)
  then have n: "fst (verifyLicense ev k w) = None"
    by (auto simp: verifyLicense_None_iff)
  then show ?thesis
    by (auto simp: verify_def falsy_def split: prod.splits)
qed

theorem verifyLicense_fails_closed_witness:
  "fst (verifyLicense env0 key0 world0) = None \<and>
   fst (verify env0 (Some key0) world0) = Response 200 (Valid_body False) \<and>
   fst (verifyLicense env0 key0 world_revoked) = None \<and>
   fst (verify env0 (Some key0) world_revoked) = Response 200 (Valid_body False) \<and>
   fst (verifyLicense (env0\<lparr>select_fails := True\<rparr>) key0 world1) = None \<and>
   fst (verify (env0\<lparr>select_fails := True\<rparr>) (Some key0) world1) = Response 200 (Valid_body False)"
  using verifyLicense_fails_closed [of key0 world0 env0]
    verifyLicense_fails_closed [of key0 world_revoked env0]
    verifyLicense_fails_closed [of key0 world1 "env0\<lparr>select_fails := True\<rparr>"]
  by (simp add: fixtures)

lemma verifyLicense_finds_active: "fst (verifyLicense env0 key0 world1) = Some license0"
  by (simp add: verifyLicense_def select_single_def fixtures)

section \<open>The gateway's checks\<close>

lemma summarise_verified:
  assumes "\<not> falsy (licenseKey req)" "\<not> falsy (text_field req)"
    and "fst (verifyLicense ev (the (licenseKey req)) w) \<noteq> None"
  shows "summarise ev req w =
    (case call_relay ev (the (licenseKey req)) (title req) (the (text_field req))
            (w\<lparr>trace := trace w @ [Select_license (the (licenseKey req))]\<rparr>) of
       (Inr response, w') \<Rightarrow> (response, w')
     | (Inl err, w') \<Rightarrow>
         (Response 500 (error_body ''Internal server error''),
          w'\<lparr>console := console w' @ [Log_summarise_error err]\<rparr>))"
  using assms verifyLicense_world [of ev "the (licenseKey req)" w]
  by (auto simp: summarise_def split: prod.splits)

lemma call_relay_trace:
  "\<exists>more. trace (snd (call_relay ev k ttl txt w)) =
     trace w @ Relay_call (relay_request_of ev ttl (take 6000 txt)) # more"
  by (simp add: call_relay_def Let_def
      split: prod.splits sum.splits relay_outcome.splits option.splits)

lemma call_relay_take: "call_relay ev k ttl (take 6000 txt) w = call_relay ev k ttl txt w"
  by (simp add: call_relay_def)

lemma summarise_trace:
  assumes "\<not> falsy (licenseKey req)" "\<not> falsy (text_field req)"
    and "fst (verifyLicense ev (the (licenseKey req)) w) \<noteq> None"
  shows "\<exists>more. trace (snd (summarise ev req w)) =
    trace w @ Select_license (the (licenseKey req))
      # Relay_call (relay_request_of ev (title req) (take 6000 (the (text_field req)))) # more"
proof -
  let ?w = "w\<lparr>trace := trace w @ [Select_license (the (licenseKey req))]\<rparr>"
  obtain more where m:
    "trace (snd (call_relay ev (the (licenseKey req)) (title req) (the (text_field req)) ?w)) =
     trace ?w @ Relay_call (relay_request_of ev (title req) (take 6000 (the (text_field req)))) # more"
    using call_relay_trace by blast
  show ?thesis
    using m by (auto simp: summarise_verified [OF assms] split: prod.splits sum.splits)
qed

text \<open>
  C3. A request without \<open>licenseKey\<close> or \<open>text\<close> is answered 400
  \<open>Missing licenseKey or text\<close> and leaves the world as it was; a request whose license
  does not verify is answered 403 \<open>INVALID_LICENSE\<close> and adds the license lookup to the
  trace and nothing else, so in both cases the relay is not called and no usage row is
  written. In the remaining case the lookup comes first in the trace and the relay call
  after it.
\<close>

theorem summarise_checks_first:
  "(falsy (licenseKey req) \<or> falsy (text_field req) \<longrightarrow>
      summarise ev req w = (Response 400 (error_body ''Missing licenseKey or text''), w)) \<and>
   (\<not> falsy (licenseKey req) \<and> \<not> falsy (text_field req) \<and>
    fst (verifyLicense ev (the (licenseKey req)) w) = None \<longrightarrow>
      summarise ev req w =
        (Response 403 (error_body ''INVALID_LICENSE''),
         w\<lparr>trace := trace w @ [Select_license (the (licenseKey req))]\<rparr>)) \<and>
   (\<not> falsy (licenseKey req) \<and> \<not> falsy (text_field req) \<and>
    fst (verifyLicense ev (the (licenseKey req)) w) \<noteq> None \<longrightarrow>
      (\<exists>r more. trace (snd (summarise ev req w)) =
         trace w @ Select_license (the (licenseKey req)) # Relay_call r # more))"
proof (intro conjI impI)
  assume "falsy (licenseKey req) \<or> falsy (text_field req)"
  then show "summarise ev req w = (Response 400 (error_body ''Missing licenseKey or text''), w)"
    by (simp add: summarise_def)
next
  assume "\<not> falsy (licenseKey req) \<and> \<not> falsy (text_field req) \<and>
    fst (verifyLicense ev (the (licenseKey req)) w) = None"
  then show "summarise ev req w =
        (Response 403 (error_body ''INVALID_LICENSE''),
         w\<lparr>trace := trace w @ [Select_license (the (licenseKey req))]\<rparr>)"
    using verifyLicense_world [of ev "the (licenseKey req)" w]
    by (auto simp: summarise_def split: prod.splits)
next
  assume "\<not> falsy (licenseKey req) \<and> \<not> falsy (text_field req) \<and>
    fst (verifyLicense ev (the (licenseKey req)) w) \<noteq> None"
  then show "\<exists>r more. trace (snd (summarise ev req w)) =
         trace w @ Select_license (the (licenseKey req)) # Relay_call r # more"
    using summarise_trace [of req ev w] by blast
qed

theorem summarise_checks_first_witness:
  "summarise env0 (request0\<lparr>licenseKey := None\<rparr>) world1 =
     (Response 400 (error_body ''Missing licenseKey or text''), world1) \<and>
   summarise env0 (request0\<lparr>text_field := None\<rparr>) world1 =
     (Response 400 (error_body ''Missing licenseKey or text''), world1) \<and>
   summarise env0 request0 world_revoked =
     (Response 403 (error_body ''INVALID_LICENSE''), world_revoked\<lparr>trace := [Select_license key0]\<rparr>) \<and>
   (\<exists>r more. trace (snd (summarise env0 request0 world1)) = Select_license key0 # Relay_call r # more)"
  using summarise_checks_first [of "request0\<lparr>licenseKey := None\<rparr>" env0 world1]
    summarise_checks_first [of "request0\<lparr>text_field := None\<rparr>" env0 world1]
    summarise_checks_first [of request0 env0 world_revoked]
    summarise_checks_first [of request0 env0 world1]
  by (simp add: fixtures request0_def falsy_def verifyLicense_def select_single_def)

section \<open>The relay call\<close>

text \<open>
  C5. When the license verifies, the relay answers with success and the stripped content
  parses, a failing insert into \<open>usage\<close> leaves the table as it was and the request is
  still answered with the parsed summary, as it is when the insert goes through.
\<close>

theorem summarise_usage_failure_harmless:
  assumes "\<not> falsy (licenseKey req)" "\<not> falsy (text_field req)"
    and "fst (verifyLicense ev (the (licenseKey req)) w) \<noteq> None"
    and "relay ev (relay_request_of ev (title req) (take 6000 (the (text_field req)))) =
           Fetch_response True (Some data)"
    and "content_of data = Inr content"
    and "JSON_parse (strip_fences content) = Some v"
    and "insert_fails ev"
  shows "fst (summarise ev req w) = Response 200 (Result_body v) \<and>
         usage (snd (summarise ev req w)) = usage w \<and>
         fst (summarise (ev\<lparr>insert_fails := False\<rparr>) req w) = fst (summarise ev req w)"
proof -
  let ?ok = "ev\<lparr>insert_fails := False\<rparr>"
  have v: "fst (verifyLicense ?ok (the (licenseKey req)) w) \<noteq> None"
    using assms(3) by (simp add: verifyLicense_def)
  have "relay_request_of ?ok = relay_request_of ev"
    by (simp add: relay_request_of_def fun_eq_iff)
  then have r: "relay ?ok (relay_request_of ?ok (title req) (take 6000 (the (text_field req)))) =
      Fetch_response True (Some data)"
    using assms(4) by simp
  have a: "fst (summarise ev req w) = Response 200 (Result_body v) \<and>
      usage (snd (summarise ev req w)) = usage w"
    using assms(4-7)
    by (simp add: summarise_verified [OF assms(1-3)] call_relay_def Let_def insert_usage_def)
  have b: "fst (summarise ?ok req w) = Response 200 (Result_body v)"
    using r assms(5,6)
    by (simp add: summarise_verified [OF assms(1,2) v] call_relay_def Let_def)
  from a b show ?thesis
    by simp
qed

theorem summarise_usage_failure_harmless_witness:
  "fst (summarise (env0\<lparr>insert_fails := True\<rparr>) request0 world1) =
     Response 200 (Result_body (JArray [JNumber (js ''1''), JBool True])) \<and>
   usage (snd (summarise (env0\<lparr>insert_fails := True\<rparr>) request0 world1)) = []"
proof -
  let ?ev = "env0\<lparr>insert_fails := True\<rparr>"
  have 1: "\<not> falsy (licenseKey request0)" and 2: "\<not> falsy (text_field request0)"
    by (simp_all add: request0_def falsy_def fixtures)
  have 3: "fst (verifyLicense ?ev (the (licenseKey request0)) world1) \<noteq> None"
    by (simp add: request0_def verifyLicense_def select_single_def fixtures)
  have 4: "relay ?ev (relay_request_of ?ev (title request0) (take 6000 (the (text_field request0)))) =
      Fetch_response True (Some (answer_with (js ''[1, true]'')))"
    by (simp add: env0_def)
  have 5: "content_of (answer_with (js ''[1, true]'')) = Inr (js ''[1, true]'')"
    by (simp add: answer_content trim_def is_js_space_def js_def)
  have 6: "JSON_parse (strip_fences (js ''[1, true]'')) = Some (JArray [JNumber (js ''1''), JBool True])"
    by (simp add: fence_eval json_eval js_def)
  have 7: "insert_fails ?ev"
    by simp
  from summarise_usage_failure_harmless [OF 1 2 3 4 5 6 7] show ?thesis
    by (simp add: world1_def world0_def)
qed

text \<open>
  C6. In every request that reaches the relay, the user message sent is the fixed preamble
  followed by the first \<open>min (length text) 6000\<close> code units of \<open>text\<close>, and the request
  is answered exactly as the same request with the text already cut would be: the cut
  itself produces no error.
\<close>

theorem summarise_forwards_prefix:
  assumes "\<not> falsy (licenseKey req)" "text_field req = Some txt" "txt \<noteq> []"
    and "fst (verifyLicense ev (the (licenseKey req)) w) \<noteq> None"
  shows "(\<exists>r more. trace (snd (summarise ev req w)) =
            trace w @ Select_license (the (licenseKey req)) # Relay_call r # more \<and>
            user_content r = js ''Page title: '' @ template (title req) @ [0x0A, 0x0A]
              @ js ''Page content:'' @ [0x0A] @ take 6000 txt) \<and>
         length (take 6000 txt) = min (length txt) 6000 \<and>
         summarise ev req w = summarise ev (req\<lparr>text_field := Some (take 6000 txt)\<rparr>) w"
proof -
  let ?req = "req\<lparr>text_field := Some (take 6000 txt)\<rparr>"
  have f: "\<not> falsy (text_field req)"
    using assms(2,3) by (simp add: falsy_def)
  have f': "\<not> falsy (text_field ?req)"
    using assms(3) by (simp add: falsy_def)
  have k': "\<not> falsy (licenseKey ?req)"
    using assms(1) by simp
  have v': "fst (verifyLicense ev (the (licenseKey ?req)) w) \<noteq> None"
    using assms(4) by simp
  have u: "user_content (relay_request_of ev (title req) (take 6000 txt)) =
      js ''Page title: '' @ template (title req) @ [0x0A, 0x0A] @ js ''Page content:'' @ [0x0A]
        @ take 6000 txt"
    by (simp add: relay_request_of_def)
  have a: "\<exists>r more. trace (snd (summarise ev req w)) =
            trace w @ Select_license (the (licenseKey req)) # Relay_call r # more \<and>
            user_content r = js ''Page title: '' @ template (title req) @ [0x0A, 0x0A]
              @ js ''Page content:'' @ [0x0A] @ take 6000 txt"
    using summarise_trace [OF assms(1) f assms(4)] assms(2) u by auto
  have c: "summarise ev req w = summarise ev ?req w"
    using assms(2)
    by (simp add: summarise_verified [OF assms(1) f assms(4)] summarise_verified [OF k' f' v']
        call_relay_take)
  from a c show ?thesis
    by simp
qed

theorem summarise_forwards_prefix_witness:
  "length long_text = 10000 \<and> length (take 6000 long_text) = 6000 \<and>
   (\<exists>r more. trace (snd (summarise env0 (request0\<lparr>text_field := Some long_text\<rparr>) world1)) =
      Select_license key0 # Relay_call r # more \<and>
      user_content r = js ''Page title: '' @ js ''undefined'' @ [0x0A, 0x0A] @ js ''Page content:''
        @ [0x0A] @ take 6000 long_text) \<and>
   summarise env0 (request0\<lparr>text_field := Some long_text\<rparr>) world1 =
     summarise env0 (request0\<lparr>text_field := Some long_text,
       text_field := Some (take 6000 long_text)\<rparr>) world1"
proof -
  let ?req = "request0\<lparr>text_field := Some long_text\<rparr>"
  have 1: "\<not> falsy (licenseKey ?req)"
    by (simp add: request0_def falsy_def fixtures)
  have 2: "text_field ?req = Some long_text"
    by simp
  have 3: "long_text \<noteq> []"
    by (simp add: long_text_def)
  have 4: "fst (verifyLicense env0 (the (licenseKey ?req)) world1) \<noteq> None"
    by (simp add: request0_def verifyLicense_def select_single_def fixtures)
  have l: "length long_text = 10000"
    by (simp add: long_text_def)
  have k: "the (licenseKey ?req) = key0" and t: "template (title ?req) = js ''undefined''"
    and w: "trace world1 = []"
    by (simp_all add: request0_def template_def world1_def world0_def)
  have m: "min (length long_text) 6000 = 6000"
    by (simp add: l)
  show ?thesis
    using summarise_forwards_prefix [OF 1 2 3 4] l unfolding k t w m append_Nil
    by (elim conjE) (intro conjI; assumption)
qed

section \<open>Malformed relay content\<close>

definition env_prose :: env where
  "env_prose = env0\<lparr>relay := (\<lambda>_. Fetch_response True (Some (answer_with (js ''Sorry, no summary.''))))\<rparr>"

definition env_unreachable :: env where
  "env_unreachable = env0\<lparr>relay := (\<lambda>_. Fetch_rejects)\<rparr>"

definition event0 :: stripe_event where
  "event0 = \<lparr>event_type = js ''checkout.session.completed'', session_id = js ''cs_test_1'',
     customer_email = Some (js ''a@example.com'')\<rparr>"

definition licenses_for :: "jsstring \<Rightarrow> world \<Rightarrow> license list" where
  "licenses_for ref w = filter (\<lambda>l. stripe_session_id l = ref) (licenses w)"

lemma summarise_relay_down:
  assumes "\<not> falsy (licenseKey req)" "\<not> falsy (text_field req)"
    and "fst (verifyLicense ev (the (licenseKey req)) w) \<noteq> None"
  shows "fst (summarise (ev\<lparr>relay := \<lambda>_. Fetch_rejects\<rparr>) req w) =
    Response 500 (error_body ''Internal server error'')"
proof -
  have v: "fst (verifyLicense (ev\<lparr>relay := \<lambda>_. Fetch_rejects\<rparr>) (the (licenseKey req)) w) \<noteq> None"
    using assms(3) by (simp add: verifyLicense_def)
  show ?thesis
    by (simp add: summarise_verified [OF assms(1,2) v] call_relay_def Let_def)
qed

text \<open>
  C4, as the code has it. When the license verifies, the relay answers with success and
  the stripped content does not parse, the \<open>SyntaxError\<close> reaches the one \<open>catch\<close> of the
  handler: the answer is 500 \<open>Internal server error\<close>, the same answer as when the call to
  the relay itself throws. There is no separate category for malformed content.
\<close>

theorem summarise_malformed_is_generic:
  assumes "\<not> falsy (licenseKey req)" "\<not> falsy (text_field req)"
    and "fst (verifyLicense ev (the (licenseKey req)) w) \<noteq> None"
    and "relay ev (relay_request_of ev (title req) (take 6000 (the (text_field req)))) =
           Fetch_response True (Some data)"
    and "content_of data = Inr content"
    and "JSON_parse (strip_fences content) = None"
  shows "fst (summarise ev req w) = Response 500 (error_body ''Internal server error'') \<and>
         fst (summarise (ev\<lparr>relay := \<lambda>_. Fetch_rejects\<rparr>) req w) = fst (summarise ev req w)"
  using assms(4-6) summarise_relay_down [OF assms(1-3)]
  by (simp add: summarise_verified [OF assms(1-3)] call_relay_def Let_def)

lemma request0_ok:
  "\<not> falsy (licenseKey request0)" "\<not> falsy (text_field request0)"
  "fst (verifyLicense (env0\<lparr>relay := r\<rparr>) (the (licenseKey request0)) world1) \<noteq> None"
  by (simp_all add: request0_def falsy_def verifyLicense_def select_single_def fixtures)

lemma prose_is_not_json:
  "content_of (answer_with (js ''Sorry, no summary.'')) = Inr (js ''Sorry, no summary.'')"
  "JSON_parse (strip_fences (js ''Sorry, no summary.'')) = None"
  by (simp_all add: answer_content fence_eval json_eval js_def)

theorem summarise_malformed_is_generic_witness:
  "fst (summarise env_prose request0 world1) = Response 500 (error_body ''Internal server error'') \<and>
   fst (summarise (env_prose\<lparr>relay := \<lambda>_. Fetch_rejects\<rparr>) request0 world1) =
     fst (summarise env_prose request0 world1)"
proof -
  have 4: "relay env_prose (relay_request_of env_prose (title request0)
      (take 6000 (the (text_field request0)))) =
      Fetch_response True (Some (answer_with (js ''Sorry, no summary.'')))"
    by (simp add: env_prose_def)
  have v: "fst (verifyLicense env_prose (the (licenseKey request0)) world1) \<noteq> None"
    using request0_ok(3) by (simp add: env_prose_def)
  show ?thesis
    by (rule summarise_malformed_is_generic [OF request0_ok(1,2) v 4 prose_is_not_json])
qed

text \<open>
  C4 as stated asks for an error category of its own for content that does not parse.
  With a relay that answers in prose the response is the generic one, and it is equal to
  the response given when the relay cannot be reached.
\<close>

theorem summarise_malformed_counterexample:
  "relay env_prose (relay_request_of env_prose (title request0) (take 6000 (the (text_field request0))))
     = Fetch_response True (Some (answer_with (js ''Sorry, no summary.''))) \<and>
   content_of (answer_with (js ''Sorry, no summary.'')) = Inr (js ''Sorry, no summary.'') \<and>
   JSON_parse (strip_fences (js ''Sorry, no summary.'')) = None \<and>
   fst (summarise env_prose request0 world1) = Response 500 (error_body ''Internal server error'') \<and>
   fst (summarise env_unreachable request0 world1) = fst (summarise env_prose request0 world1)"
proof -
  have v: "fst (verifyLicense env_prose (the (licenseKey request0)) world1) \<noteq> None"
    "fst (verifyLicense env_unreachable (the (licenseKey request0)) world1) \<noteq> None"
    using request0_ok(3) by (simp_all add: env_prose_def env_unreachable_def)
  have r: "relay env_prose x = Fetch_response True (Some (answer_with (js ''Sorry, no summary.'')))"
    "relay env_unreachable x = Fetch_rejects" for x
    by (simp_all add: env_prose_def env_unreachable_def)
  have p: "fst (summarise env_prose request0 world1) = Response 500 (error_body ''Internal server error'')"
    by (simp add: summarise_verified [OF request0_ok(1,2) v(1)] call_relay_def Let_def
        prose_is_not_json r)
  have u: "fst (summarise env_unreachable request0 world1) = Response 500 (error_body ''Internal server error'')"
    by (simp add: summarise_verified [OF request0_ok(1,2) v(2)] call_relay_def Let_def r)
  show ?thesis
    using p u by (simp add: prose_is_not_json r)
qed


section \<open>Delivery of the key by mail\<close>

lemma insert_license_ok:
  "fst (insert_license down row tbl) = None \<longleftrightarrow> \<not> down \<and> \<not> list_ex (\<lambda>r. key r = key row) tbl"
  by (simp add: insert_license_def)

lemma insert_license_tbl:
  "snd (insert_license down row tbl) =
     (if fst (insert_license down row tbl) = None then tbl @ [row] else tbl)"
  by (simp add: insert_license_def)

lemma webhook_email_issued:
  assumes "event_type e = js ''checkout.session.completed''"
    and "fst (insert_license (insert_fails ev) (new_license ev e (fst (generateLicenseKey (entropy w))))
           (licenses w)) = None"
  shows "fst (webhook_email ev (Verified e) w) = Response 200 Received_body"
    and "licenses (snd (webhook_email ev (Verified e) w)) =
           licenses w @ [new_license ev e (fst (generateLicenseKey (entropy w)))]"
  using assms insert_license_tbl [of "insert_fails ev" "new_license ev e (fst (generateLicenseKey (entropy w)))" "licenses w"]
  by (auto simp: webhook_email_def send_email_def Let_def
      split: prod.splits option.splits email_outcome.splits)

lemma new_license_delivery: "new_license (ev\<lparr>email_delivery := d\<rparr>) = new_license ev"
  by (simp add: new_license_def fun_eq_iff)

text \<open>
  C9. When the insert of the License succeeds, whatever the mail delivery does (it sends,
  it returns an error, it throws), the handler answers \<open>{ received: true }\<close>, the new row is
  in \<open>licenses\<close> with \<open>active\<close> set, and a lookup of its key that reaches the store finds it.
\<close>

theorem webhook_email_failure_harmless:
  assumes "event_type e = js ''checkout.session.completed''"
    and "fst (insert_license (insert_fails ev) (new_license ev e (fst (generateLicenseKey (entropy w))))
           (licenses w)) = None"
  shows "fst (webhook_email (ev\<lparr>email_delivery := d\<rparr>) (Verified e) w) = Response 200 Received_body \<and>
    licenses (snd (webhook_email (ev\<lparr>email_delivery := d\<rparr>) (Verified e) w)) =
      licenses w @ [new_license ev e (fst (generateLicenseKey (entropy w)))] \<and>
    active (new_license ev e (fst (generateLicenseKey (entropy w)))) \<and>
    (\<not> select_fails ev' \<longrightarrow>
       fst (verifyLicense ev' (fst (generateLicenseKey (entropy w)))
             (snd (webhook_email (ev\<lparr>email_delivery := d\<rparr>) (Verified e) w))) =
         Some (new_license ev e (fst (generateLicenseKey (entropy w)))))"
proof -
  let ?k = "fst (generateLicenseKey (entropy w))"
  let ?ev = "ev\<lparr>email_delivery := d\<rparr>"
  have i: "fst (insert_license (insert_fails ?ev) (new_license ?ev e ?k) (licenses w)) = None"
    using assms(2) by (simp add: new_license_delivery)
  note r = webhook_email_issued [OF assms(1) i, unfolded new_license_delivery]
  have n: "filter (\<lambda>r. key r = ?k \<and> active r) (licenses w) = []"
    using assms(2) by (auto simp: insert_license_ok new_license_def filter_empty_conv list_ex_iff)
  have "filter (\<lambda>r. key r = ?k \<and> active r) (licenses w @ [new_license ev e ?k]) = [new_license ev e ?k]"
    using n by (simp add: new_license_def)
  then have v: "\<not> select_fails ev' \<longrightarrow>
      fst (verifyLicense ev' ?k (snd (webhook_email ?ev (Verified e) w))) = Some (new_license ev e ?k)"
    by (simp add: verifyLicense_def select_single_def r(2))
  show ?thesis
    using r v by (simp add: new_license_def)
qed

theorem webhook_email_failure_harmless_witness:
  "fst (webhook_email (env0\<lparr>email_delivery := Email_throws\<rparr>) (Verified event0) world0) =
     Response 200 Received_body \<and>
   licenses (snd (webhook_email (env0\<lparr>email_delivery := Email_throws\<rparr>) (Verified event0) world0)) =
     [new_license env0 event0 (js ''TLDR-012345-6789AB-CDEF10'')] \<and>
   fst (verifyLicense env0 (js ''TLDR-012345-6789AB-CDEF10'')
         (snd (webhook_email (env0\<lparr>email_delivery := Email_throws\<rparr>) (Verified event0) world0))) =
     Some (new_license env0 event0 (js ''TLDR-012345-6789AB-CDEF10''))"
proof -
  have 1: "event_type event0 = js ''checkout.session.completed''"
    by (simp add: event0_def)
  have 2: "fst (insert_license (insert_fails env0)
      (new_license env0 event0 (fst (generateLicenseKey (entropy world0)))) (licenses world0)) = None"
    by (simp add: insert_license_def env0_def world0_def)
  have 3: "\<not> select_fails env0" "licenses world0 = []"
    by (simp_all add: env0_def world0_def)
  show ?thesis
    using webhook_email_failure_harmless [OF 1 2, of Email_throws env0] 3
    by (simp add: world0_keys)
qed

section \<open>Redelivery of a payment event\<close>

text \<open>
  C1 as stated asks for one License per transaction reference when an event is delivered
  twice. The handler looks nothing up before it inserts: two deliveries of one event, both
  answered with success, leave two rows with the event's session id.
\<close>

theorem webhook_redelivery_counterexample:
  "fst (webhook env0 (Verified event0) world0) = Response 200 Received_body \<and>
   fst (webhook env0 (Verified event0) (snd (webhook env0 (Verified event0) world0))) =
     Response 200 Received_body \<and>
   length (licenses_for (session_id event0)
     (snd (webhook env0 (Verified event0) (snd (webhook env0 (Verified event0) world0))))) = 2"
proof -
  let ?w1 = "\<lparr>licenses = [new_license env0 event0 (js ''TLDR-012345-6789AB-CDEF10'')], usage = [],
      entropy = [0x32, 0x54, 0x76, 0x98, 0xBA, 0xDC, 0xFE, 0x00, 0xFF] @- sconst 0,
      trace = [Insert_license (new_license env0 event0 (js ''TLDR-012345-6789AB-CDEF10''))],
      console = [Log_license_created (js ''TLDR-012345-6789AB-CDEF10'') (customer_email event0)]\<rparr>"
  have 1: "webhook env0 (Verified event0) world0 = (Response 200 Received_body, ?w1)"
    by (simp add: webhook_def world0_keys(1) Let_def insert_license_def)
      (simp add: world0_def event0_def env0_def)
  have 2: "fst (webhook env0 (Verified event0) ?w1) = Response 200 Received_body"
    and 3: "licenses (snd (webhook env0 (Verified event0) ?w1)) =
     [new_license env0 event0 (js ''TLDR-012345-6789AB-CDEF10''),
      new_license env0 event0 (js ''TLDR-325476-98BADC-FE00FF'')]"
    by (simp_all add: webhook_def key_eval Let_def insert_license_def new_license_def
        event0_def env0_def js_def)
  have 4: "length (licenses_for (session_id event0) (snd (webhook env0 (Verified event0) ?w1))) = 2"
    unfolding licenses_for_def 3 by (simp add: new_license_def)
  show ?thesis
    unfolding 1 fst_conv snd_conv by (intro conjI refl 2 4)
qed


lemma webhook_success:
  assumes "event_type e = js ''checkout.session.completed''"
    and "fst (webhook ev (Verified e) w) = Response 200 Received_body"
  shows "licenses (snd (webhook ev (Verified e) w)) =
           licenses w @ [new_license ev e (fst (generateLicenseKey (entropy w)))]"
    and "trace (snd (webhook ev (Verified e) w)) =
           trace w @ [Insert_license (new_license ev e (fst (generateLicenseKey (entropy w))))]"
  using assms
  by (auto simp: webhook_def Let_def insert_license_def error_body_def
      split: prod.splits option.splits if_splits)

lemma licenses_for_new:
  "licenses w' = licenses w @ [new_license ev e k] \<Longrightarrow>
   length (licenses_for (session_id e) w') = Suc (length (licenses_for (session_id e) w))"
  by (simp add: licenses_for_def new_license_def)

text \<open>
  C1, as the code has it. Every delivery of a completed checkout generates a key and makes
  one insert, and no other call to the store; a delivery answered with success adds one row
  with the event's session id, so two such deliveries of the same event add two.
\<close>

theorem webhook_issues_on_every_delivery:
  assumes "event_type e = js ''checkout.session.completed''"
    and "w1 = snd (webhook ev1 (Verified e) w)"
    and "w2 = snd (webhook ev2 (Verified e) w1)"
    and "fst (webhook ev1 (Verified e) w) = Response 200 Received_body"
    and "fst (webhook ev2 (Verified e) w1) = Response 200 Received_body"
  shows "length (licenses_for (session_id e) w1) = length (licenses_for (session_id e) w) + 1 \<and>
    length (licenses_for (session_id e) w2) = length (licenses_for (session_id e) w) + 2 \<and>
    trace w2 = trace w @
      [Insert_license (new_license ev1 e (fst (generateLicenseKey (entropy w)))),
       Insert_license (new_license ev2 e (fst (generateLicenseKey (entropy w1))))]"
proof -
  note a = webhook_success [OF assms(1,4), folded assms(2)]
  note b = webhook_success [OF assms(1,5), folded assms(3)]
  show ?thesis
    using licenses_for_new [OF a(1)] licenses_for_new [OF b(1)] a(2) b(2) by simp
qed

theorem webhook_issues_on_every_delivery_witness:
  "length (licenses_for (session_id event0) world0) = 0 \<and>
   length (licenses_for (session_id event0) (snd (webhook env0 (Verified event0) world0))) = 1 \<and>
   length (licenses_for (session_id event0)
     (snd (webhook env0 (Verified event0) (snd (webhook env0 (Verified event0) world0))))) = 2"
proof -
  let ?w1 = "\<lparr>licenses = [new_license env0 event0 (js ''TLDR-012345-6789AB-CDEF10'')], usage = [],
      entropy = [0x32, 0x54, 0x76, 0x98, 0xBA, 0xDC, 0xFE, 0x00, 0xFF] @- sconst 0,
      trace = [Insert_license (new_license env0 event0 (js ''TLDR-012345-6789AB-CDEF10''))],
      console = [Log_license_created (js ''TLDR-012345-6789AB-CDEF10'') (customer_email event0)]\<rparr>"
  have 1: "event_type event0 = js ''checkout.session.completed''"
    by (simp add: event0_def)
  have w1: "webhook env0 (Verified event0) world0 = (Response 200 Received_body, ?w1)"
    by (simp add: webhook_def world0_keys(1) Let_def insert_license_def)
      (simp add: world0_def event0_def env0_def)
  have 4: "fst (webhook env0 (Verified event0) world0) = Response 200 Received_body"
    by (simp add: w1)
  have "fst (webhook env0 (Verified event0) ?w1) = Response 200 Received_body"
    by (simp add: webhook_def key_eval Let_def insert_license_def new_license_def
        event0_def env0_def js_def)
  then have 5: "fst (webhook env0 (Verified event0) (snd (webhook env0 (Verified event0) world0))) =
      Response 200 Received_body"
    by (simp add: w1)
  have 0: "length (licenses_for (session_id event0) world0) = 0"
    by (simp add: licenses_for_def world0_def)
  show ?thesis
    using webhook_issues_on_every_delivery [OF 1 refl refl 4 5] 0 by simp
qed

section \<open>Fence stripping\<close>

text \<open>
  White space and the backtick are the characters that can stand next to a JSON text in
  the relay's content. Neither begins, continues or ends a token, so one of them at the
  end of a text is passed over by the lexer when it is JSON white space and makes it fail
  otherwise.
\<close>

definition inert :: "jschar \<Rightarrow> bool" where
  "inert w = (is_js_space w \<or> w = 0x60)"

definition carried :: "jschar \<Rightarrow> ('a \<times> jsstring) option \<Rightarrow> ('a \<times> jsstring) option" where
  "carried w r = (case r of None \<Rightarrow> None | Some (x, rest) \<Rightarrow> Some (x, rest @ [w]))"

lemma carried_simps [simp]:
  "carried w None = None" "carried w (Some (x, rest)) = Some (x, rest @ [w])"
  by (simp_all add: carried_def)

lemma carried_with_char: "carried w (with_char c r) = with_char c (carried w r)"
  by (simp add: carried_def with_char_def split: option.splits)

lemma literals:
  "js ''true'' = [0x74, 0x72, 0x75, 0x65]"
  "js ''false'' = [0x66, 0x61, 0x6C, 0x73, 0x65]"
  "js ''null'' = [0x6E, 0x75, 0x6C, 0x6C]"
  "fence = [0x60, 0x60, 0x60]"
  by (simp_all add: js_def fence_def)

lemma inert_cases:
  assumes "inert w"
  obtains "w = 0x09" | "w = 0x0A" | "w = 0x0B" | "w = 0x0C" | "w = 0x0D" | "w = 0x20" | "w = 0xA0"
    | "w = 0x1680" | "w = 0x2000" | "w = 0x2001" | "w = 0x2002" | "w = 0x2003" | "w = 0x2004"
    | "w = 0x2005" | "w = 0x2006" | "w = 0x2007" | "w = 0x2008" | "w = 0x2009" | "w = 0x200A"
    | "w = 0x2028" | "w = 0x2029" | "w = 0x202F" | "w = 0x205F" | "w = 0x3000" | "w = 0xFEFF"
    | "w = 0x60"
  using assms unfolding inert_def is_js_space_def by blast

lemma inert_facts:
  assumes "inert w"
  shows "w \<noteq> 0x22" "w \<noteq> 0x5C" "w \<noteq> 0x75" "\<not> is_hex w" "\<not> is_digit w" "simple_escape w = None"
    "punctuation w = None" "w \<noteq> 0x2D" "w \<noteq> 0x2E" "w \<noteq> 0x65" "w \<noteq> 0x45" "w \<noteq> 0x2B"
    "w \<notin> set (js ''true'')" "w \<notin> set (js ''false'')" "w \<notin> set (js ''null'')"
    "w \<noteq> 0x30"
  by (rule inert_cases [OF assms]; simp add: is_hex_def is_digit_def simple_escape_def
      punctuation_def literals)+

lemma takeWhile_snoc: "\<not> P w \<Longrightarrow> takeWhile P (s @ [w]) = takeWhile P s"
  by (induction s) auto

lemma dropWhile_snoc: "\<not> P w \<Longrightarrow> dropWhile P (s @ [w]) = dropWhile P s @ [w]"
  by (induction s) auto

lemma lex_string_snoc:
  assumes "inert w"
  shows "lex_string (cs @ [w]) = carried w (lex_string cs)"
proof (induction cs rule: lex_string.induct)
  case 1
  show ?case
    using inert_facts(1,2) [OF assms] by (simp add: with_char_def)
next
  case (2 c cs)
  note f = inert_facts [OF assms]
  show ?case
  proof (cases "c = 0x22")
    case True
    then show ?thesis by simp
  next
    case nq: False
    show ?thesis
    proof (cases "c = 0x5C")
      case bs: True
      show ?thesis
      proof (cases cs)
        case Nil
        with bs f show ?thesis by simp
      next
        case (Cons e cs')
        show ?thesis
        proof (cases "e = 0x75")
          case u: True
          show ?thesis
          proof (cases "4 \<le> length cs'")
            case True
            then have "take 4 (cs' @ [w]) = take 4 cs'" "drop 4 (cs' @ [w]) = drop 4 cs' @ [w]"
              by simp_all
            with bs Cons u True "2.IH"(1) [OF nq bs Cons u] show ?thesis
              by (simp add: carried_with_char)
          next
            case False
            then have "take 4 (cs' @ [w]) = cs' @ [w]"
              by simp
            with bs Cons u False f(4) show ?thesis
              by simp
          qed
        next
          case nu: False
          with bs Cons nq "2.IH"(2) [OF nq bs Cons nu] show ?thesis
            by (simp add: carried_with_char split: option.splits)
        qed
      qed
    next
      case False
      with nq "2.IH"(3) show ?thesis
        by (simp add: carried_with_char)
    qed
  qed
qed

lemma lex_digits_snoc: "inert w \<Longrightarrow> lex_digits (s @ [w]) = carried w (lex_digits s)"
  by (simp add: lex_digits_def takeWhile_snoc dropWhile_snoc inert_facts)

lemma lex_int_snoc: "inert w \<Longrightarrow> lex_int (s @ [w]) = carried w (lex_int s)"
  by (cases s) (simp_all add: lex_int_def takeWhile_snoc dropWhile_snoc inert_facts)

lemma lex_frac_snoc: "inert w \<Longrightarrow> lex_frac (s @ [w]) = carried w (lex_frac s)"
  by (cases s) (simp_all add: lex_frac_def lex_digits_snoc carried_with_char inert_facts)

lemma lex_exp_snoc: "inert w \<Longrightarrow> lex_exp (s @ [w]) = carried w (lex_exp s)"
proof (cases s)
  case Nil
  assume "inert w"
  with Nil show ?thesis by (simp add: lex_exp_def inert_facts)
next
  case (Cons c cs)
  assume w: "inert w"
  show ?thesis
  proof (cases cs)
    case Nil
    with Cons w show ?thesis
      by (simp add: lex_exp_def inert_facts lex_digits_def with_char_def)
  next
    case (Cons g cs')
    with \<open>s = c # cs\<close> w show ?thesis
      using lex_digits_snoc [OF w, of cs'] lex_digits_snoc [OF w, of "g # cs'"]
      by (simp add: lex_exp_def carried_with_char)
  qed
qed

lemma lex_unsigned_snoc: "inert w \<Longrightarrow> lex_unsigned (s @ [w]) = carried w (lex_unsigned s)"
  by (simp add: lex_unsigned_def lex_int_snoc lex_frac_snoc lex_exp_snoc split: option.splits)

lemma lex_number_snoc: "inert w \<Longrightarrow> lex_number (s @ [w]) = carried w (lex_number s)"
proof (cases s)
  case Nil
  assume w: "inert w"
  have "lex_unsigned [w] = None"
    using lex_unsigned_snoc [OF w, of "[]"] by (simp add: lex_unsigned_def lex_int_def)
  with Nil w show ?thesis
    by (simp add: lex_number_def inert_facts)
next
  case (Cons c cs)
  assume w: "inert w"
  with Cons show ?thesis
    using lex_unsigned_snoc [OF w, of cs] lex_unsigned_snoc [OF w, of "c # cs"]
    by (simp add: lex_number_def carried_with_char)
qed

lemma take_snoc_literal:
  assumes "w \<notin> set lit"
  shows "(take (length lit) (s @ [w]) = lit) = (take (length lit) s = lit)"
proof (cases "length lit \<le> length s")
  case True
  then show ?thesis by simp
next
  case False
  then have "take (length lit) (s @ [w]) = s @ [w]" "take (length lit) s = s"
    by simp_all
  moreover have "s @ [w] \<noteq> lit"
    using assms by auto
  moreover have "s \<noteq> lit"
    using False by auto
  ultimately show ?thesis
    by simp
qed

lemma with_token_if: "with_token t (if b then r else None) = (if b then with_token t r else None)"
  by (simp add: with_token_def)

lemma literal_length:
  "length (js ''true'') = 4" "length (js ''false'') = 5" "length (js ''null'') = 4"
  by (simp_all add: js_def)

lemma literal_snoc:
  assumes "inert w"
  shows "(take 4 (s @ [w]) = js ''true'') = (take 4 s = js ''true'')"
    and "(take 5 (s @ [w]) = js ''false'') = (take 5 s = js ''false'')"
    and "(take 4 (s @ [w]) = js ''null'') = (take 4 s = js ''null'')"
  using take_snoc_literal [OF inert_facts(13) [OF assms], of s, unfolded literal_length]
    take_snoc_literal [OF inert_facts(14) [OF assms], of s, unfolded literal_length]
    take_snoc_literal [OF inert_facts(15) [OF assms], of s, unfolded literal_length]
  by blast+

lemma literal_found:
  "take 4 (c # cs) = js ''true'' \<Longrightarrow> drop 3 (cs @ [w]) = drop 3 cs @ [w]"
  "take 5 (c # cs) = js ''false'' \<Longrightarrow> drop 4 (cs @ [w]) = drop 4 cs @ [w]"
  "take 4 (c # cs) = js ''null'' \<Longrightarrow> drop 3 (cs @ [w]) = drop 3 cs @ [w]"
proof -
  show "drop 3 (cs @ [w]) = drop 3 cs @ [w]" if "take 4 (c # cs) = js ''true''"
  proof -
    have "length (take 4 (c # cs)) = 4"
      using that by (simp add: literal_length)
    then show ?thesis by simp
  qed
  show "drop 4 (cs @ [w]) = drop 4 cs @ [w]" if "take 5 (c # cs) = js ''false''"
  proof -
    have "length (take 5 (c # cs)) = 5"
      using that by (simp add: literal_length)
    then show ?thesis by simp
  qed
  show "drop 3 (cs @ [w]) = drop 3 cs @ [w]" if "take 4 (c # cs) = js ''null''"
  proof -
    have "length (take 4 (c # cs)) = 4"
      using that by (simp add: literal_length)
    then show ?thesis by simp
  qed
qed

lemma tokenise_snoc:
  assumes w: "inert w"
  shows "tokenise (s @ [w]) = (if is_json_space w then tokenise s else None)"
proof (induction s rule: tokenise.induct)
  case 1
  have "take 4 [w] \<noteq> js ''true''" "take 5 [w] \<noteq> js ''false''" "take 4 [w] \<noteq> js ''null''"
    by (simp_all add: literals)
  then show ?case
    using inert_facts [OF w] by simp
next
  case (2 c cs)
  note f = inert_facts [OF w]
  note l = literal_snoc [OF w, of "c # cs", simplified]
  consider (space) "is_json_space c"
    | (punct) "\<not> is_json_space c" "punctuation c \<noteq> None"
    | (string) "\<not> is_json_space c" "\<not> punctuation c \<noteq> None" "c = 0x22"
    | (number) "\<not> is_json_space c" "\<not> punctuation c \<noteq> None" "c \<noteq> 0x22" "c = 0x2D \<or> is_digit c"
    | (true) "\<not> is_json_space c" "\<not> punctuation c \<noteq> None" "c \<noteq> 0x22" "\<not> (c = 0x2D \<or> is_digit c)"
        "take 4 (c # cs) = js ''true''"
    | (false) "\<not> is_json_space c" "\<not> punctuation c \<noteq> None" "c \<noteq> 0x22" "\<not> (c = 0x2D \<or> is_digit c)"
        "take 4 (c # cs) \<noteq> js ''true''" "take 5 (c # cs) = js ''false''"
    | (null) "\<not> is_json_space c" "\<not> punctuation c \<noteq> None" "c \<noteq> 0x22" "\<not> (c = 0x2D \<or> is_digit c)"
        "take 4 (c # cs) \<noteq> js ''true''" "take 5 (c # cs) \<noteq> js ''false''" "take 4 (c # cs) = js ''null''"
    | (other) "\<not> is_json_space c" "\<not> punctuation c \<noteq> None" "c \<noteq> 0x22" "\<not> (c = 0x2D \<or> is_digit c)"
        "take 4 (c # cs) \<noteq> js ''true''" "take 5 (c # cs) \<noteq> js ''false''" "take 4 (c # cs) \<noteq> js ''null''"
    by blast
  then show ?case
  proof cases
    case space
    with "2.IH"(1) show ?thesis by simp
  next
    case punct
    with "2.IH"(2) show ?thesis by (simp add: with_token_if)
  next
    case string
    show ?thesis
    proof (cases "lex_string cs")
      case None
      with string show ?thesis
        by (simp add: lex_string_snoc [OF w])
    next
      case (Some p)
      obtain x y where p: "p = (x, y)" by (cases p)
      from "2.IH"(3) [OF string Some p [symmetric]] string Some p show ?thesis
        by (simp add: lex_string_snoc [OF w] with_token_if)
    qed
  next
    case number
    show ?thesis
    proof (cases "lex_number (c # cs)")
      case None
      with number show ?thesis
        using lex_number_snoc [OF w, of "c # cs"] by simp
    next
      case (Some p)
      obtain x y where p: "p = (x, y)" by (cases p)
      from "2.IH"(4) [OF number Some p [symmetric]] number Some p show ?thesis
        using lex_number_snoc [OF w, of "c # cs"] by (simp add: with_token_if)
    qed
  next
    case true
    have "drop 3 (cs @ [w]) = drop 3 cs @ [w]"
      by (rule literal_found(1) [OF true(5)])
    with "2.IH"(5) [OF true] true l show ?thesis
      by (simp add: with_token_if)
  next
    case false
    have "drop 4 (cs @ [w]) = drop 4 cs @ [w]"
      by (rule literal_found(2) [OF false(6)])
    with "2.IH"(6) [OF false] false l show ?thesis
      by (simp add: with_token_if)
  next
    case null
    have "drop 3 (cs @ [w]) = drop 3 cs @ [w]"
      by (rule literal_found(3) [OF null(7)])
    with "2.IH"(7) [OF null] null l show ?thesis
      by (simp add: with_token_if)
  next
    case other
    with l show ?thesis by simp
  qed
qed

lemma tokenise_cons:
  assumes w: "inert w"
  shows "tokenise (w # s) = (if is_json_space w then tokenise s else None)"
proof -
  have "take 4 (w # s) \<noteq> js ''true''" "take 5 (w # s) \<noteq> js ''false''" "take 4 (w # s) \<noteq> js ''null''"
    using inert_facts(13-15) [OF w] by (auto simp: literals)
  then show ?thesis
    using inert_facts [OF w] by simp
qed

lemma space_inert: "is_js_space w \<Longrightarrow> inert w"
  by (simp add: inert_def)

lemma tokenise_dropWhile:
  "tokenise s = Some ts \<Longrightarrow> tokenise (dropWhile is_js_space s) = Some ts"
proof (induction s)
  case Nil
  then show ?case by simp
next
  case (Cons c s)
  show ?case
  proof (cases "is_js_space c")
    case True
    from Cons.prems have "(if is_json_space c then tokenise s else None) = Some ts"
      unfolding tokenise_cons [OF space_inert [OF True]] .
    then have "tokenise s = Some ts"
      by (simp split: if_splits)
    with Cons.IH True show ?thesis by simp
  next
    case False
    with Cons.prems show ?thesis by simp
  qed
qed

lemma tokenise_drop_trailing:
  "list_all is_js_space u \<Longrightarrow> tokenise (s @ u) = Some ts \<Longrightarrow> tokenise s = Some ts"
proof (induction u rule: rev_induct)
  case Nil
  then show ?case by simp
next
  case (snoc w u)
  from snoc.prems(1) have w: "inert w" and u: "list_all is_js_space u"
    by (simp_all add: space_inert)
  from snoc.prems(2) have "tokenise ((s @ u) @ [w]) = Some ts"
    by simp
  then have "(if is_json_space w then tokenise (s @ u) else None) = Some ts"
    unfolding tokenise_snoc [OF w] .
  then have "tokenise (s @ u) = Some ts"
    by (simp split: if_splits)
  with snoc.IH u show ?case by simp
qed

lemma trailing_split: "s = rev (dropWhile P (rev s)) @ rev (takeWhile P (rev s))"
  by (metis rev_append rev_rev_ident takeWhile_dropWhile_id)

lemma tokenise_trim: "tokenise s = Some ts \<Longrightarrow> tokenise (trim s) = Some ts"
proof -
  assume "tokenise s = Some ts"
  then have a: "tokenise (dropWhile is_js_space s) = Some ts"
    by (rule tokenise_dropWhile)
  let ?t = "dropWhile is_js_space s"
  have "list_all is_js_space (rev (takeWhile is_js_space (rev ?t)))"
    by (simp add: list_all_iff) (meson set_takeWhileD)
  moreover have "tokenise (rev (dropWhile is_js_space (rev ?t)) @ rev (takeWhile is_js_space (rev ?t))) = Some ts"
    using a trailing_split [of ?t is_js_space] by simp
  ultimately show ?thesis
    unfolding trim_def by (rule tokenise_drop_trailing)
qed

lemma JSON_parse_trim: "JSON_parse s = Some v \<Longrightarrow> JSON_parse (trim s) = Some v"
  by (auto simp: JSON_parse_def tokenise_trim split: option.splits)

lemma JSON_parse_tokens: "JSON_parse s = Some v \<Longrightarrow> \<exists>t ts. tokenise s = Some (t # ts)"
  by (cases "tokenise s"; cases "the (tokenise s)") (auto simp: JSON_parse_def)

lemma JSON_text_ends:
  assumes "JSON_parse s = Some v"
  shows "trim s \<noteq> []" "hd (trim s) \<noteq> 0x60" "last (trim s) \<noteq> 0x60"
proof -
  obtain t ts where t: "tokenise (trim s) = Some (t # ts)"
    using JSON_parse_tokens [OF JSON_parse_trim [OF assms]] by blast
  have i: "inert 0x60"
    by (simp add: inert_def)
  have n: "\<not> is_json_space 0x60"
    by (simp add: is_json_space_def)
  show ne: "trim s \<noteq> []"
    using t by auto
  show "hd (trim s) \<noteq> 0x60"
  proof
    assume "hd (trim s) = 0x60"
    with ne have "trim s = 0x60 # tl (trim s)"
      by (metis list.collapse)
    then have "tokenise (trim s) = None"
      using tokenise_cons [OF i, of "tl (trim s)"] n by simp
    with t show False by simp
  qed
  show "last (trim s) \<noteq> 0x60"
  proof
    assume "last (trim s) = 0x60"
    with ne have "trim s = butlast (trim s) @ [0x60]"
      by (metis append_butlast_last_id)
    then have "tokenise (trim s) = None"
      using tokenise_snoc [OF i, of "butlast (trim s)"] n by simp
    with t show False by simp
  qed
qed

definition fenced_json :: "jsstring \<Rightarrow> jsstring" where
  "fenced_json j = js ''```json'' @ [0x0A] @ j @ [0x0A] @ js ''```''"

definition fenced_plain :: "jsstring \<Rightarrow> jsstring" where
  "fenced_plain j = js ''```'' @ [0x0A] @ j @ [0x0A] @ js ''```''"

definition trimmed :: "jsstring \<Rightarrow> bool" where
  "trimmed t = (t \<noteq> [] \<and> \<not> is_js_space (hd t) \<and> \<not> is_js_space (last t))"

lemma trim_append_spaces:
  assumes "trimmed t" "list_all is_js_space u"
  shows "trim (t @ u) = t"
proof -
  obtain a t' where t: "t = a # t'" and a: "\<not> is_js_space a"
    using assms(1) by (cases t) (auto simp: trimmed_def)
  have 1: "dropWhile is_js_space (t @ u) = t @ u"
    using t a by simp
  have "rev t \<noteq> []" "\<not> is_js_space (hd (rev t))"
    using assms(1) by (simp_all add: trimmed_def hd_rev)
  then have 2: "dropWhile is_js_space (rev t) = rev t"
    by (cases "rev t") auto
  have "dropWhile is_js_space (rev u @ rev t) = dropWhile is_js_space (rev t)"
    using assms(2) by (intro dropWhile_append2) (auto simp: list_all_iff)
  then show ?thesis
    by (simp add: trim_def 1 2)
qed

lemma trim_trimmed: "trimmed t \<Longrightarrow> trim t = t"
  using trim_append_spaces [of t "[]"] by simp

lemma trim_is_trimmed:
  assumes "trim s \<noteq> []"
  shows "trimmed (trim s)"
proof -
  let ?a = "dropWhile is_js_space s"
  let ?b = "dropWhile is_js_space (rev ?a)"
  have b: "?b \<noteq> []"
    using assms by (simp add: trim_def)
  then have 1: "\<not> is_js_space (hd ?b)"
    by (rule hd_dropWhile)
  have a: "?a \<noteq> []"
  proof
    assume e: "?a = []"
    have "?b = []"
      unfolding e by simp
    with b show False ..
  qed
  then have "\<not> is_js_space (hd ?a)"
    by (rule hd_dropWhile)
  moreover have "last ?b = last (rev ?a)"
    using b by (metis last_appendR takeWhile_dropWhile_id)
  ultimately have 2: "\<not> is_js_space (last ?b)"
    using a by (simp add: last_rev)
  show ?thesis
    using b 1 2 by (simp add: trimmed_def trim_def hd_rev last_rev)
qed

lemma leading_split:
  assumes "trim s \<noteq> []"
  shows "\<exists>u. list_all is_js_space u \<and> dropWhile is_js_space s = trim s @ u"
proof -
  let ?a = "dropWhile is_js_space s"
  have "?a = rev (dropWhile is_js_space (rev ?a)) @ rev (takeWhile is_js_space (rev ?a))"
    by (rule trailing_split)
  moreover have "list_all is_js_space (rev (takeWhile is_js_space (rev ?a)))"
    by (simp add: list_all_iff) (meson set_takeWhileD)
  ultimately show ?thesis
    unfolding trim_def by blast
qed

lemma strip_close_fence_found:
  assumes "list_all is_js_space u"
  shows "strip_close_fence (s @ fence @ u) = s"
proof (induction s)
  case Nil
  show ?case
    using assms by (simp add: literals)
next
  case (Cons c s)
  have "0x60 \<in> set (drop 2 (s @ fence @ u))"
    by (cases s; cases "tl s") (auto simp: literals)
  moreover have "\<not> is_js_space 0x60"
    by (simp add: is_js_space_def)
  ultimately have "\<not> list_all is_js_space (drop 2 (s @ fence @ u))"
    by (auto simp: list_all_iff)
  with Cons.IH show ?case
    by simp
qed

lemma strip_close_fence_none:
  assumes "\<And>a u. t = a @ fence @ u \<Longrightarrow> \<not> list_all is_js_space u"
  shows "strip_close_fence t = t"
  using assms
proof (induction t)
  case Nil
  show ?case by simp
next
  case (Cons c t)
  have "\<not> (take 3 (c # t) = fence \<and> list_all is_js_space (drop 2 t))"
  proof
    assume h: "take 3 (c # t) = fence \<and> list_all is_js_space (drop 2 t)"
    from h have e: "take 3 (c # t) = fence" ..
    have "c # t = take 3 (c # t) @ drop 3 (c # t)"
      by (simp only: append_take_drop_id)
    also have "\<dots> = [] @ fence @ drop 2 t"
      unfolding e by simp
    finally have "c # t = [] @ fence @ drop 2 t" .
    from Cons.prems [OF this] h show False by simp
  qed
  moreover have "strip_close_fence t = t"
  proof (rule Cons.IH)
    fix a u
    assume "t = a @ fence @ u"
    then have "c # t = (c # a) @ fence @ u"
      by simp
    then show "\<not> list_all is_js_space u"
      by (rule Cons.prems)
  qed
  ultimately show ?case
    by simp
qed

definition fenced :: "jsstring \<Rightarrow> jsstring \<Rightarrow> jsstring \<Rightarrow> jsstring \<Rightarrow> jsstring" where
  \<comment> \<open>\<open>j\<close> between an opening fence with language tag \<open>tag\<close> and a closing fence,
    set off by the white space \<open>w1\<close> and \<open>w2\<close>\<close>
  "fenced tag w1 w2 j = fence @ tag @ w1 @ j @ w2 @ fence"

lemma not_space_backtick: "\<not> is_js_space 0x60"
  by (simp add: is_js_space_def)

lemma trim_leading: "list_all is_js_space a \<Longrightarrow> trim (a @ s) = trim s"
  by (simp add: trim_def dropWhile_append2 list_all_iff)

lemma trimmed_fenced: "trimmed (fenced tag w1 w2 j)"
  by (simp add: trimmed_def fenced_def literals not_space_backtick)

lemma trim_fenced:
  "list_all is_js_space a \<Longrightarrow> list_all is_js_space b \<Longrightarrow>
   trim (a @ fenced tag w1 w2 j @ b) = fenced tag w1 w2 j"
  by (simp add: trim_leading trim_append_spaces [OF trimmed_fenced])

lemma no_fence_at_start:
  assumes "t \<noteq> []" "hd t \<noteq> 0x60"
  shows "take 3 (t @ s) \<noteq> fence"
  using assms by (cases t) (auto simp: literals)

lemma no_tag_at_start:
  assumes "s \<noteq> []" "hd s \<noteq> 0x6A" "hd s \<noteq> 0x4A"
  shows "\<not> is_json_tag (take 4 s)"
  using assms by (cases s) (auto simp: is_json_tag_def split: list.splits)

lemma body_after_fence:
  assumes "trimmed t" "hd t \<noteq> 0x60" "list_all is_js_space u"
  shows "trim (strip_close_fence (strip_open_fence (t @ u @ fence))) = t"
proof -
  have "take 3 (t @ u @ fence) \<noteq> fence"
    using assms(1,2) by (intro no_fence_at_start) (simp_all add: trimmed_def)
  then have "strip_open_fence (t @ u @ fence) = t @ u @ fence"
    by (simp add: strip_open_fence_def)
  moreover have "strip_close_fence ((t @ u) @ fence @ []) = t @ u"
    by (rule strip_close_fence_found) simp
  moreover have "trim (t @ u) = t"
    using assms(1,3) by (rule trim_append_spaces)
  ultimately show ?thesis
    by simp
qed

lemma drop_leading:
  assumes "trim j \<noteq> []" "list_all is_js_space w1" "list_all is_js_space w2"
  shows "\<exists>u. list_all is_js_space u \<and>
    dropWhile is_js_space (w1 @ j @ w2 @ fence) = trim j @ u @ fence"
proof -
  obtain u where u: "list_all is_js_space u" "dropWhile is_js_space j = trim j @ u"
    using leading_split [OF assms(1)] by blast
  have "dropWhile is_js_space j \<noteq> []"
    using u(2) assms(1) by simp
  then obtain x where "x \<in> set j" "\<not> is_js_space x"
    by (auto simp: dropWhile_eq_Nil_conv)
  then have "dropWhile is_js_space (j @ w2 @ fence) = dropWhile is_js_space j @ w2 @ fence"
    by (rule dropWhile_append1)
  moreover have "dropWhile is_js_space (w1 @ j @ w2 @ fence) = dropWhile is_js_space (j @ w2 @ fence)"
    using assms(2) by (intro dropWhile_append2) (auto simp: list_all_iff)
  ultimately have "dropWhile is_js_space (w1 @ j @ w2 @ fence) = trim j @ (u @ w2) @ fence"
    using u(2) by simp
  moreover have "list_all is_js_space (u @ w2)"
    using u(1) assms(3) by simp
  ultimately show ?thesis
    by blast
qed

lemma strip_fenced:
  assumes "trim j \<noteq> []" "hd (trim j) \<notin> {0x60, 0x6A, 0x4A}"
    and "tag = [] \<or> is_json_tag tag"
    and "list_all is_js_space w1" "list_all is_js_space w2"
  shows "strip_fences (fenced tag w1 w2 j) = trim j"
proof -
  obtain u where u: "list_all is_js_space u"
    "dropWhile is_js_space (w1 @ j @ w2 @ fence) = trim j @ u @ fence"
    using drop_leading [OF assms(1,4,5)] by blast
  have t: "trimmed (trim j)"
    by (rule trim_is_trimmed [OF assms(1)])
  have b: "hd (trim j) \<noteq> 0x60"
    using assms(2) by simp
  note r = body_after_fence [OF t b u(1)]
  have o: "strip_open_fence (trim j @ u @ fence) = trim j @ u @ fence"
    using no_fence_at_start [OF assms(1) b, of "u @ fence"] by (simp add: strip_open_fence_def)
  from assms(3) show ?thesis
  proof
    assume e: "tag = []"
    have h: "hd (w1 @ j @ w2 @ fence) \<notin> {0x6A, 0x4A}"
    proof (cases "is_js_space (hd (w1 @ j @ w2 @ fence))")
      case True
      then show ?thesis
        by (auto simp: is_js_space_def)
    next
      case False
      then have d: "dropWhile is_js_space (w1 @ j @ w2 @ fence) = w1 @ j @ w2 @ fence"
        by (cases "w1 @ j @ w2 @ fence") auto
      from d [symmetric] have "w1 @ j @ w2 @ fence = trim j @ u @ fence"
        unfolding u(2) .
      then have "hd (w1 @ j @ w2 @ fence) = hd (trim j @ u @ fence)"
        by (rule arg_cong)
      also have "\<dots> = hd (trim j)"
        using assms(1) by (rule hd_append2)
      finally show ?thesis
        using assms(2) by simp
    qed
    have "w1 @ j @ w2 @ fence \<noteq> []"
      by (simp add: literals)
    then have "\<not> is_json_tag (take 4 (w1 @ j @ w2 @ fence))"
      using h by (intro no_tag_at_start) auto
    then have 1: "strip_json_fence (fenced tag w1 w2 j) = fenced tag w1 w2 j"
      by (simp add: strip_json_fence_def fenced_def e literals)
    have 2: "strip_open_fence (fenced tag w1 w2 j) = dropWhile is_js_space (w1 @ j @ w2 @ fence)"
      by (simp add: strip_open_fence_def fenced_def e literals)
    have "trim (strip_close_fence (trim j @ u @ fence)) = trim j"
      using r o by simp
    then show ?thesis
      unfolding strip_fences_def 1 2 u(2) .
  next
    assume g: "is_json_tag tag"
    then have l: "length tag = 4"
      by (auto simp: is_json_tag_def split: list.splits)
    then have "take 3 (fenced tag w1 w2 j) = fence" "take 4 (drop 3 (fenced tag w1 w2 j)) = tag"
      "drop 7 (fenced tag w1 w2 j) = w1 @ j @ w2 @ fence"
      by (simp_all add: fenced_def literals)
    then have 1: "strip_json_fence (fenced tag w1 w2 j) = dropWhile is_js_space (w1 @ j @ w2 @ fence)"
      using g by (simp add: strip_json_fence_def)
    show ?thesis
      unfolding strip_fences_def 1 u(2) by (rule r)
  qed
qed

lemma strip_unfenced:
  assumes "trim j \<noteq> []" "hd (trim j) \<noteq> 0x60" "last (trim j) \<noteq> 0x60"
  shows "strip_fences (trim j) = trim j"
proof -
  let ?t = "trim j"
  have t: "trimmed ?t"
    by (rule trim_is_trimmed [OF assms(1)])
  have "take 3 (?t @ []) \<noteq> fence"
    using assms(1,2) by (rule no_fence_at_start)
  then have 1: "strip_json_fence ?t = ?t" "strip_open_fence ?t = ?t"
    by (simp_all add: strip_json_fence_def strip_open_fence_def)
  have 2: "strip_close_fence ?t = ?t"
  proof (rule strip_close_fence_none)
    fix a u
    assume e: "?t = a @ fence @ u"
    show "\<not> list_all is_js_space u"
    proof (cases u rule: rev_cases)
      case Nil
      with e have "last ?t = 0x60"
        by (simp add: literals)
      with assms(3) show ?thesis by simp
    next
      case (snoc u' x)
      with e have "last ?t = x"
        by simp
      with t snoc show ?thesis
        by (simp add: trimmed_def)
    qed
  qed
  show ?thesis
    by (simp add: strip_fences_def 1 2 trim_trimmed [OF t])
qed

lemma no_token_starts:
  "tokenise (0x60 # r) = None" "tokenise (0x6A # r) = None" "tokenise (0x4A # r) = None"
  by (simp_all add: is_json_space_def punctuation_def is_digit_def literals)

lemma JSON_text_start:
  assumes "JSON_parse s = Some v"
  shows "hd (trim s) \<notin> {0x60, 0x6A, 0x4A}"
proof
  assume h: "hd (trim s) \<in> {0x60, 0x6A, 0x4A}"
  obtain t ts where t: "tokenise (trim s) = Some (t # ts)"
    using JSON_parse_tokens [OF JSON_parse_trim [OF assms]] by blast
  then obtain c r where c: "trim s = c # r"
    by (cases "trim s") auto
  with h have "c = 0x60 \<or> c = 0x6A \<or> c = 0x4A"
    by simp
  then have "tokenise (c # r) = None"
    by (elim disjE) (simp_all only: no_token_starts)
  with t c show False
    by (simp del: tokenise.simps)
qed

text \<open>
  C8, as the code has it. For a text \<open>j\<close> that \<open>JSON.parse\<close> accepts, \<open>j\<close> between an opening
  fence (bare, or tagged \<open>json\<close> in any case) and a closing fence, with any white space
  around the fences and around \<open>j\<close>, is normalised to a text that parses to the value of
  \<open>j\<close>. Without fences the normalisation removes the white space at both ends of \<open>j\<close> and
  nothing else, and the value is again that of \<open>j\<close>.
\<close>

theorem strip_fences_keeps_json:
  assumes "JSON_parse j = Some v"
    and "tag = [] \<or> is_json_tag tag"
    and "list_all is_js_space a" "list_all is_js_space w1" "list_all is_js_space w2"
      "list_all is_js_space b"
  shows "JSON_parse (strip_fences (trim (a @ fenced tag w1 w2 j @ b))) = Some v \<and>
    JSON_parse (strip_fences (trim j)) = Some v \<and>
    strip_fences (trim j) = trim j"
proof -
  note e = JSON_text_ends [OF assms(1)]
  have 1: "strip_fences (fenced tag w1 w2 j) = trim j"
    using e(1) JSON_text_start [OF assms(1)] assms(2,4,5) by (rule strip_fenced)
  have 2: "strip_fences (trim j) = trim j"
    using e by (rule strip_unfenced)
  have 3: "trim (a @ fenced tag w1 w2 j @ b) = fenced tag w1 w2 j"
    using assms(3,6) by (rule trim_fenced)
  show ?thesis
    unfolding 1 2 3 using JSON_parse_trim [OF assms(1)] by simp
qed

theorem strip_fences_keeps_json_witness:
  "JSON_parse (js ''[1, true]'') = Some (JArray [JNumber (js ''1''), JBool True]) \<and>
   JSON_parse (strip_fences (trim ([] @ fenced (js ''json'') [0x0A] [0x0A] (js ''[1, true]'') @ []))) =
     Some (JArray [JNumber (js ''1''), JBool True]) \<and>
   JSON_parse (strip_fences (trim (js ''[1, true]''))) = Some (JArray [JNumber (js ''1''), JBool True]) \<and>
   strip_fences (trim (js ''[1, true]'')) = trim (js ''[1, true]'')"
proof -
  have p: "JSON_parse (js ''[1, true]'') = Some (JArray [JNumber (js ''1''), JBool True])"
    by (simp add: json_eval js_def)
  have t: "js ''json'' = [] \<or> is_json_tag (js ''json'')"
    by (simp add: is_json_tag_def js_def)
  have s: "list_all is_js_space []" "list_all is_js_space [0x0A]"
    by (simp_all add: is_js_space_def)
  show ?thesis
    using strip_fences_keeps_json [OF p t s(1) s(2) s(2) s(1)] p
    by (elim conjE) (intro conjI; assumption)
qed

text \<open>
  C8 as stated has unfenced input left unchanged. A JSON text with a leading blank and no
  backtick in it comes out of the normalisation without the blank.
\<close>

theorem strip_fences_trims_counterexample:
  "JSON_parse (js '' {}'') = Some (JObject []) \<and> 0x60 \<notin> set (js '' {}'') \<and>
   strip_fences (trim (js '' {}'')) \<noteq> js '' {}''"
  by (simp add: json_eval fence_eval js_def)

lemma fenced_example:
  "fenced (js ''json'') [0x0A] [0x0A] (js ''{}'') = js ''```json'' @ [0x0A] @ js ''{}'' @ [0x0A] @ js ''```''"
  by (simp add: fenced_def fence_def js_def)

section \<open>Generated keys\<close>

definition upper_digit :: "nat \<Rightarrow> jschar" where
  "upper_digit d = (if 0x61 \<le> hex_digit d \<and> hex_digit d \<le> 0x7A then hex_digit d - 0x20 else hex_digit d)"

lemma nibble_cases:
  "(d::nat) < 16 \<Longrightarrow> d = 0 \<or> d = 1 \<or> d = 2 \<or> d = 3 \<or> d = 4 \<or> d = 5 \<or> d = 6 \<or> d = 7 \<or>
     d = 8 \<or> d = 9 \<or> d = 10 \<or> d = 11 \<or> d = 12 \<or> d = 13 \<or> d = 14 \<or> d = 15"
  by presburger

lemma upper_digit_hex: "d < 16 \<Longrightarrow> is_upper_hex (upper_digit d)"
  by (drule nibble_cases) (elim disjE; simp add: upper_digit_def hex_digit_def is_upper_hex_def)

lemma upper_digit_value: "d < 16 \<Longrightarrow> hex_value (upper_digit d) = d"
  by (drule nibble_cases)
    (elim disjE; simp add: upper_digit_def hex_digit_def hex_value_def is_digit_def)

lemma upper_hex_byte:
  "toUpperCase (hex_byte b) = [upper_digit (unat b div 16), upper_digit (unat b mod 16)]"
  by (simp add: toUpperCase_def hex_byte_def upper_digit_def)

lemma byte_nibbles: "unat (b::byte) div 16 < 16" "unat b mod 16 < 16"
proof -
  have "unat b < 256"
    using unsigned_less [of b, where ?'a = nat] by simp
  then show "unat b div 16 < 16" by simp
  show "unat b mod 16 < 16" by simp
qed

lemma toUpperCase_append: "toUpperCase (s @ t) = toUpperCase s @ toUpperCase t"
  by (simp add: toUpperCase_def)

lemma upper_hex_all: "list_all is_upper_hex (toUpperCase (toString_hex bs))"
  by (induction bs)
    (simp_all add: toString_hex_def toUpperCase_append upper_hex_byte upper_digit_hex byte_nibbles,
      simp add: toUpperCase_def)

lemma upper_hex_length: "length (toUpperCase (toString_hex bs)) = 2 * length bs"
  by (induction bs) (simp_all add: toString_hex_def toUpperCase_def hex_byte_def)

lemma seg_is_segment: "is_segment (fst (seg e))"
  by (simp add: seg_def randomBytes_def is_segment_def upper_hex_all upper_hex_length)

lemma words:
  "js ''TLDR-'' = [0x54, 0x4C, 0x44, 0x52, 0x2D]" "js ''-'' = [0x2D]"
  by (simp_all add: js_def)

lemma key_format_of_segments:
  assumes "is_segment s1" "is_segment s2" "is_segment s3"
  shows "key_format (js ''TLDR-'' @ s1 @ js ''-'' @ s2 @ js ''-'' @ s3)"
  using assms by (simp add: key_format_def is_segment_def words)

lemma generateLicenseKey_format: "key_format (fst (generateLicenseKey e))"
proof -
  obtain s1 e1 where 1: "seg e = (s1, e1)" by (cases "seg e")
  obtain s2 e2 where 2: "seg e1 = (s2, e2)" by (cases "seg e1")
  obtain s3 e3 where 3: "seg e2 = (s3, e3)" by (cases "seg e2")
  have "is_segment s1" "is_segment s2" "is_segment s3"
    using seg_is_segment [of e] seg_is_segment [of e1] seg_is_segment [of e2] 1 2 3 by simp_all
  then show ?thesis
    by (simp add: generateLicenseKey_def 1 2 3 key_format_of_segments)
qed

lemma generate_many_format: "list_all key_format (generate_many n e)"
proof (induction n arbitrary: e)
  case 0
  show ?case by simp
next
  case (Suc n)
  obtain k e' where k: "generateLicenseKey e = (k, e')" by (cases "generateLicenseKey e")
  then have "key_format k"
    using generateLicenseKey_format [of e] by simp
  with Suc k show ?case by simp
qed

definition key_of_bytes :: "byte list \<Rightarrow> jsstring" where
  \<comment> \<open>the key made from the nine bytes that one call draws\<close>
  "key_of_bytes bs =
     js ''TLDR-'' @ toUpperCase (toString_hex (take 3 bs)) @ js ''-''
       @ toUpperCase (toString_hex (take 3 (drop 3 bs))) @ js ''-''
       @ toUpperCase (toString_hex (take 3 (drop 6 bs)))"

fun decode_hex :: "jsstring \<Rightarrow> byte list" where
  "decode_hex (h # l # r) = of_nat (16 * hex_value h + hex_value l) # decode_hex r"
| "decode_hex r = []"

definition bytes_of_key :: "jsstring \<Rightarrow> byte list" where
  "bytes_of_key k =
     decode_hex (take 6 (drop 5 k)) @ decode_hex (take 6 (drop 12 k)) @ decode_hex (take 6 (drop 19 k))"

lemma generateLicenseKey_stake: "generateLicenseKey e = (key_of_bytes (stake 9 e), sdrop 9 e)"
  by (simp add: generateLicenseKey_def seg_def randomBytes_def key_of_bytes_def take_stake drop_stake)

lemma decode_hex_encode: "decode_hex (toUpperCase (toString_hex bs)) = bs"
proof (induction bs)
  case Nil
  show ?case by (simp add: toString_hex_def toUpperCase_def)
next
  case (Cons b bs)
  have "toUpperCase (toString_hex (b # bs)) =
      upper_digit (unat b div 16) # upper_digit (unat b mod 16) # toUpperCase (toString_hex bs)"
    using upper_hex_byte [of b] by (simp add: toString_hex_def toUpperCase_append)
  moreover have "(of_nat (16 * (unat b div 16) + unat b mod 16) :: byte) = b"
    by simp
  ultimately show ?case
    using Cons.IH by (simp add: upper_digit_value byte_nibbles)
qed

lemma bytes_of_key_of_bytes:
  assumes "length bs = 9"
  shows "bytes_of_key (key_of_bytes bs) = bs"
proof -
  let ?a = "toUpperCase (toString_hex (take 3 bs))"
  let ?b = "toUpperCase (toString_hex (take 3 (drop 3 bs)))"
  let ?c = "toUpperCase (toString_hex (take 3 (drop 6 bs)))"
  have l: "length ?a = 6" "length ?b = 6" "length ?c = 6"
    using assms by (simp_all add: upper_hex_length)
  have "bytes_of_key (key_of_bytes bs) = decode_hex ?a @ decode_hex ?b @ decode_hex ?c"
    using l by (simp add: bytes_of_key_def key_of_bytes_def words)
  also have "\<dots> = take 3 bs @ take 3 (drop 3 bs) @ take 3 (drop 6 bs)"
    by (simp only: decode_hex_encode)
  also have "\<dots> = bs"
  proof -
    have 1: "take 3 (drop 6 bs) = drop 3 (drop 3 bs)"
      using assms by simp
    have 2: "take 3 (drop 3 bs) @ drop 3 (drop 3 bs) = drop 3 bs"
      by (rule append_take_drop_id)
    show ?thesis
      unfolding 1 2 by (rule append_take_drop_id)
  qed
  finally show ?thesis .
qed

lemma generate_many_draws:
  assumes "list_all (\<lambda>d. length d = 9) ds"
  shows "generate_many (length ds) (concat ds @- e) = map key_of_bytes ds"
  using assms
proof (induction ds)
  case Nil
  show ?case by simp
next
  case (Cons d ds)
  then have l: "length d = 9" and r: "list_all (\<lambda>d. length d = 9) ds"
    by simp_all
  have "stake 9 (d @- concat ds @- e) = d" "sdrop 9 (d @- concat ds @- e) = concat ds @- e"
    using l by (simp_all add: stake_shift sdrop_shift)
  then have "generateLicenseKey (concat (d # ds) @- e) = (key_of_bytes d, concat ds @- e)"
    by (simp add: generateLicenseKey_stake)
  with Cons.IH [OF r] show ?case
    by simp
qed

lemma key_of_bytes_inj: "inj_on key_of_bytes {d. length d = 9}"
  by (rule inj_on_inverseI [where g = bytes_of_key]) (simp add: bytes_of_key_of_bytes)

lemma draws_distinct:
  assumes "list_all (\<lambda>d. length d = 9) ds"
  shows "distinct (generate_many (length ds) (concat ds @- e)) = distinct ds"
proof -
  have "set ds \<subseteq> {d. length d = 9}"
    using assms by (auto simp: list_all_iff)
  then have "inj_on key_of_bytes (set ds)"
    by (rule inj_on_subset [OF key_of_bytes_inj])
  then show ?thesis
    by (simp add: generate_many_draws [OF assms] distinct_map)
qed

lemma repeats_bound:
  assumes "finite A"
  shows "2 * card {xs. set xs \<subseteq> A \<and> length xs = n \<and> \<not> distinct xs}
    \<le> n * (n - 1) * card A ^ (n - 1)"
proof (induction n)
  case 0
  show ?case by simp
next
  case (Suc n)
  let ?L = "{xs. set xs \<subseteq> A \<and> length xs = n}"
  let ?B = "\<lambda>n. {xs. set xs \<subseteq> A \<and> length xs = n \<and> \<not> distinct xs}"
  let ?U = "\<Union>x\<in>A. Cons x ` ?B n"
  let ?V = "\<Union>xs\<in>?L. (\<lambda>x. x # xs) ` set xs"
  have fL: "finite ?L"
    using assms by (rule finite_lists_length_eq)
  have cL: "card ?L = card A ^ n"
    using assms by (rule card_lists_length_eq)
  have fB: "finite (?B n)"
    by (rule finite_subset [OF _ fL]) auto
  have sub: "?B (Suc n) \<subseteq> ?U \<union> ?V"
  proof
    fix ys
    assume "ys \<in> ?B (Suc n)"
    then obtain x xs where ys: "ys = x # xs" and x: "x \<in> A" and xs: "set xs \<subseteq> A" "length xs = n"
      and nd: "x \<in> set xs \<or> \<not> distinct xs"
      by (cases ys) auto
    from nd show "ys \<in> ?U \<union> ?V"
    proof
      assume "x \<in> set xs"
      with xs ys have "ys \<in> ?V" by auto
      then show ?thesis ..
    next
      assume "\<not> distinct xs"
      with x xs ys have "ys \<in> ?U" by auto
      then show ?thesis ..
    qed
  qed
  have fU: "finite ?U"
    using assms fB by auto
  have fV: "finite ?V"
    using fL by auto
  have "card ?U \<le> (\<Sum>x\<in>A. card (Cons x ` ?B n))"
    using assms by (rule card_UN_le)
  also have "\<dots> \<le> (\<Sum>x\<in>A. card (?B n))"
    by (intro sum_mono card_image_le fB)
  finally have cU: "card ?U \<le> card A * card (?B n)"
    by simp
  have "card ?V \<le> (\<Sum>xs\<in>?L. card ((\<lambda>x. x # xs) ` set xs))"
    using fL by (rule card_UN_le)
  also have "\<dots> \<le> (\<Sum>xs\<in>?L. n)"
  proof (rule sum_mono)
    fix xs
    assume "xs \<in> ?L"
    then have "length xs = n" by simp
    moreover have "card ((\<lambda>x. x # xs) ` set xs) \<le> card (set xs)"
      by (intro card_image_le) simp
    ultimately show "card ((\<lambda>x. x # xs) ` set xs) \<le> n"
      using card_length [of xs] by simp
  qed
  finally have cV: "card ?V \<le> n * card A ^ n"
    by (simp add: cL mult.commute)
  have "card (?B (Suc n)) \<le> card (?U \<union> ?V)"
    using sub fU fV by (intro card_mono) auto
  also have "\<dots> \<le> card ?U + card ?V"
    by (rule card_Un_le)
  finally have c: "card (?B (Suc n)) \<le> card A * card (?B n) + n * card A ^ n"
    using cU cV by linarith
  show ?case
  proof (cases n)
    case 0
    have e: "?B 0 = {}"
      by auto
    show ?thesis
      using c unfolding 0 e by simp
  next
    case (Suc m)
    have "2 * card (?B (Suc n)) \<le> card A * (2 * card (?B n)) + 2 * (n * card A ^ n)"
      using c by simp
    also have "\<dots> \<le> card A * (n * (n - 1) * card A ^ (n - 1)) + 2 * (n * card A ^ n)"
      using Suc.IH by (intro add_mono mult_le_mono2) simp_all
    also have "\<dots> = Suc n * (Suc n - 1) * card A ^ (Suc n - 1)"
      using Suc by (simp add: algebra_simps)
    finally show ?thesis .
  qed
qed

lemma draws_card:
  "finite {d::byte list. length d = 9}" "card {d::byte list. length d = 9} = 2 ^ 72"
proof -
  have e: "{d::byte list. length d = 9} = {d. set d \<subseteq> UNIV \<and> length d = 9}"
    by simp
  show "finite {d::byte list. length d = 9}"
    unfolding e by (rule finite_lists_length_eq) simp
  have "card {d::byte list. set d \<subseteq> UNIV \<and> length d = 9} = card (UNIV :: byte set) ^ 9"
    by (rule card_lists_length_eq) simp
  also have "\<dots> = 2 ^ 72"
    by (simp add: card_word)
  finally show "card {d::byte list. length d = 9} = 2 ^ 72"
    unfolding e .
qed

text \<open>
  C7. Whatever bytes the random source delivers, a generated key is \<open>TLDR-\<close> followed by
  three segments of six upper-case hexadecimal digits, separated by hyphens. The key is a
  one-to-one image of the nine bytes drawn for it, so \<open>n\<close> successive keys repeat only when
  two draws do: of the \<open>(2 ^ 72) ^ n\<close> possible outcomes of the \<open>n\<close> draws, which a uniform
  source makes equally likely, at most the fraction \<open>n * (n - 1) / 2 ^ 73\<close> yields a
  repeated key.
\<close>

theorem generateLicenseKey_format_and_collisions:
  "key_format (fst (generateLicenseKey e)) \<and>
   list_all key_format (generate_many n e) \<and>
   card {ds::byte list list. length ds = n \<and> list_all (\<lambda>d. length d = 9) ds} = (2 ^ 72) ^ n \<and>
   2 ^ 73 * card {ds. length ds = n \<and> list_all (\<lambda>d. length d = 9) ds \<and>
       \<not> distinct (generate_many n (concat ds @- e))}
     \<le> n * (n - 1) * (2 ^ 72) ^ n"
proof -
  let ?A = "{d::byte list. length d = 9}"
  define M :: nat where "M = 2 ^ 72"
  have cA: "card ?A = M"
    by (simp only: draws_card M_def)
  have all: "{ds. length ds = n \<and> list_all (\<lambda>d. length d = 9) ds} = {ds. set ds \<subseteq> ?A \<and> length ds = n}"
    by (auto simp: list_all_iff)
  have bad: "{ds. length ds = n \<and> list_all (\<lambda>d. length d = 9) ds \<and>
       \<not> distinct (generate_many n (concat ds @- e))} =
     {ds. set ds \<subseteq> ?A \<and> length ds = n \<and> \<not> distinct ds}" (is "?X = ?Y")
  proof (rule set_eqI)
    fix ds
    show "ds \<in> ?X \<longleftrightarrow> ds \<in> ?Y"
    proof (cases "length ds = n \<and> list_all (\<lambda>d. length d = 9) ds")
      case True
      then have "distinct (generate_many n (concat ds @- e)) = distinct ds"
        using draws_distinct [of ds e] by simp
      with True show ?thesis
        by (auto simp: list_all_iff)
    next
      case False
      then show ?thesis
        by (auto simp: list_all_iff)
    qed
  qed
  have total: "card {ds. set ds \<subseteq> ?A \<and> length ds = n} = M ^ n"
    using card_lists_length_eq [OF draws_card(1), of n] cA by simp
  have r: "2 * card ?Y \<le> n * (n - 1) * M ^ (n - 1)"
    using repeats_bound [OF draws_card(1), of n] unfolding cA .
  have "2 ^ 73 * card ?Y = M * (2 * card ?Y)"
    by (simp add: M_def)
  also have "\<dots> \<le> M * (n * (n - 1) * M ^ (n - 1))"
    using r by (rule mult_le_mono2)
  also have "\<dots> = n * (n - 1) * M ^ n"
    by (cases n) simp_all
  finally have "2 ^ 73 * card ?Y \<le> n * (n - 1) * M ^ n" .
  then show ?thesis
    unfolding all bad total M_def
    using generateLicenseKey_format [of e] generate_many_format [of n e] by simp
qed

end
